theory Spec2Isabelle
  imports Complex_Main
begin

section \<open>The HTTP client of the frontend (frontend/lib/api.ts)\<close>

text \<open>
  The client talks to the backend through one axios instance. A call either resolves
  with a response (a status code and the decoded body) or rejects, throwing an error
  value. The instance is a parameter of every operation below: a function from the
  request that was issued to the outcome of that request, so that a theorem quantified
  over it speaks about every behaviour of the backend and of the network.
\<close>

datatype json =
    JNull
  | JBool bool
  | JNum int
  | JStr string
  | JArr "json list"
  | JObj "(string \<times> json) list"

datatype http_method = GET | POST | PUT | DELETE

record request =
  req_method :: http_method
  req_url :: string
  req_body :: "json option"

record 'd axios_response =
  status :: int
  data :: 'd

text \<open>
  The value thrown by a rejected call. The handlers only ever read
  \<^verbatim>\<open>error.response?.data?.detail\<close> from it, which is absent when the request never
  reached the server.
\<close>

record thrown =
  detail :: "string option"

type_synonym 'd axios = "request \<Rightarrow> thrown + 'd axios_response"

subsection \<open>Wire types\<close>

text \<open>
  The interfaces of the source, one record each. A field carries a prefix where two
  interfaces share its name (\<^verbatim>\<open>id\<close>, \<^verbatim>\<open>name\<close>, \<^verbatim>\<open>properties\<close>, \<^verbatim>\<open>memory_enabled\<close>).
\<close>

record ToolCall =
  tool_name :: string
  tool_arguments :: "(string \<times> json) list"
  tool_output :: json

record ReasoningStep =
  step_number :: int
  reasoning :: "string option"
  tool_calls :: "ToolCall list"

record AgentContext =
  system_prompt :: string
  ctx_memory_enabled :: bool
  preferences_applied :: "string option"
  model :: string
  available_tools :: "string list"

record ChatResponse =
  response :: string
  reasoning_steps :: "ReasoningStep list"
  agent_context :: "AgentContext option"
  thread_id :: "string option"

record GraphNode =
  node_id :: string
  labels :: "string list"
  node_properties :: "(string \<times> json) list"

record GraphRelationship =
  rel_id :: string
  rel_from :: string
  rel_to :: string
  rel_type :: string
  rel_properties :: "(string \<times> json) list"

record MemoryGraph =
  nodes :: "GraphNode list"
  relationships :: "GraphRelationship list"

subsection \<open>chatAPI\<close>

text \<open>
  \<^verbatim>\<open>sendMessage(message, memoryEnabled = false, threadId = null)\<close>. An omitted argument
  is \<open>None\<close>; the thread id itself is nullable, hence the nested option. The body is the
  object literal of the source, in its field order.
\<close>

definition chat_body :: "string \<Rightarrow> bool \<Rightarrow> string option \<Rightarrow> json" where
  "chat_body message memoryEnabled threadId =
     JObj [(''message'', JStr message),
           (''memory_enabled'', JBool memoryEnabled),
           (''thread_id'', (case threadId of None \<Rightarrow> JNull | Some t \<Rightarrow> JStr t))]"

definition chatAPI_sendMessage ::
  "ChatResponse axios \<Rightarrow> string \<Rightarrow> bool option \<Rightarrow> string option option \<Rightarrow> thrown + ChatResponse"
where
  "chatAPI_sendMessage api message memoryEnabled_arg threadId_arg =
     (let memoryEnabled = (case memoryEnabled_arg of None \<Rightarrow> False | Some b \<Rightarrow> b);
          threadId = (case threadId_arg of None \<Rightarrow> None | Some t \<Rightarrow> t)
      in case api \<lparr>req_method = POST, req_url = ''/chat'',
                    req_body = Some (chat_body message memoryEnabled threadId)\<rparr> of
           Inl e \<Rightarrow> Inl e
         | Inr r \<Rightarrow> Inr (data r))"

text \<open>
  \<^verbatim>\<open>healthCheck\<close>: the request sits in a \<^verbatim>\<open>try\<close> whose \<^verbatim>\<open>catch\<close> returns false. The
  result type keeps the error alternative, so that "nothing is thrown" is a statement
  about the function and not a consequence of its type.
\<close>

definition chatAPI_healthCheck :: "'d axios \<Rightarrow> thrown + bool" where
  "chatAPI_healthCheck api =
     (case api \<lparr>req_method = GET, req_url = ''/health'', req_body = None\<rparr> of
        Inr r \<Rightarrow> Inr (status r = 200)
      | Inl _ \<Rightarrow> Inr False)"

definition chatAPI_getMemoryGraph :: "MemoryGraph axios \<Rightarrow> thrown + MemoryGraph" where
  "chatAPI_getMemoryGraph api =
     (case api \<lparr>req_method = GET, req_url = ''/preferences/graph'', req_body = None\<rparr> of
        Inl e \<Rightarrow> Inl e
      | Inr r \<Rightarrow> Inr (data r))"

text \<open>Field access on a JSON object literal, for reading a request body back.\<close>

fun obj_fields :: "json \<Rightarrow> (string \<times> json) list" where
  "obj_fields (JObj fs) = fs"
| "obj_fields _ = []"

section \<open>The chat screen (ChatInterface component)\<close>

datatype sender = User | Agent

record Message =
  msg_id :: string
  msg_text :: string
  msg_sender :: sender
  msg_timestamp :: nat
  reasoningSteps :: "ReasoningStep list option"
  agentContext :: "AgentContext option"

record Toast =
  toast_title :: string
  toast_description :: string
  toast_type :: string
  toast_duration :: nat

text \<open>
  The component's state hooks, with two logs for the effects the handler fires and
  forgets: the toasts it raises and its calls of \<^verbatim>\<open>loadThreads\<close> (whose own continuation
  is the only writer of the thread list, which is therefore left out).
\<close>

record ChatState =
  messages :: "Message list"
  inputValue :: string
  isLoading :: bool
  isConnected :: bool
  memoryEnabled :: bool
  activeThreadId :: "string option"
  sidebarOpen :: bool
  activeThreadTitle :: string
  memoryGraphOpen :: bool
  toasts :: "Toast list"
  loadThreads_calls :: nat

text \<open>
  The four readings of the clock the handler takes: \<^verbatim>\<open>Date.now()\<close> and \<^verbatim>\<open>new Date()\<close>
  for the user's message, and again for the reply. Nothing is assumed about them.
\<close>

record clock =
  now_sent :: nat
  date_sent :: nat
  now_settled :: nat
  date_settled :: nat

text \<open>\<^verbatim>\<open>Number.prototype.toString\<close> on a non-negative integer: its decimal digits.\<close>

fun toString :: "nat \<Rightarrow> string" where
  "toString n =
     (if n < 10 then [char_of (48 + n)]
      else toString (n div 10) @ [char_of (48 + n mod 10)])"

declare toString.simps [simp del]

text \<open>
  \<^verbatim>\<open>String.prototype.trim\<close>, on strings whose characters are the code units U+0000 to
  U+00FF: the white space and line terminators in that range are TAB, LF, VT, FF, CR,
  SPACE and NBSP.
\<close>

definition isWhiteSpace :: "char \<Rightarrow> bool" where
  "isWhiteSpace c = (of_char c \<in> {9, 10, 11, 12, 13, 32, 160 :: nat})"

definition trim :: "string \<Rightarrow> string" where
  "trim s = rev (dropWhile isWhiteSpace (rev (dropWhile isWhiteSpace s)))"

text \<open>Truthiness of a nullable string, and \<^verbatim>\<open>a || b\<close> on one.\<close>

definition truthy :: "string option \<Rightarrow> bool" where
  "truthy v = (case v of None \<Rightarrow> False | Some s \<Rightarrow> s \<noteq> [])"

definition or_else :: "string option \<Rightarrow> string \<Rightarrow> string" where
  "or_else v d = (case v of None \<Rightarrow> d | Some s \<Rightarrow> if s = [] then d else s)"

definition userMessage :: "clock \<Rightarrow> string \<Rightarrow> Message" where
  "userMessage clk txt =
     \<lparr>msg_id = toString (now_sent clk), msg_text = txt, msg_sender = User,
      msg_timestamp = date_sent clk, reasoningSteps = None, agentContext = None\<rparr>"

definition agentMessage :: "clock \<Rightarrow> ChatResponse \<Rightarrow> Message" where
  "agentMessage clk r =
     \<lparr>msg_id = toString (now_settled clk + 1), msg_text = response r, msg_sender = Agent,
      msg_timestamp = date_settled clk, reasoningSteps = Some (reasoning_steps r),
      agentContext = agent_context r\<rparr>"

definition errorMessage :: "clock \<Rightarrow> Message" where
  "errorMessage clk =
     \<lparr>msg_id = toString (now_settled clk + 1),
      msg_text = ''Sorry, I encountered an error processing your request. Please try again.'',
      msg_sender = Agent, msg_timestamp = date_settled clk,
      reasoningSteps = None, agentContext = None\<rparr>"

definition errorToast :: "thrown \<Rightarrow> Toast" where
  "errorToast e =
     \<lparr>toast_title = ''Error'',
      toast_description = or_else (detail e) ''Failed to send message'',
      toast_type = ''error'', toast_duration = 5000\<rparr>"

text \<open>
  The handler \<^verbatim>\<open>sendMessage\<close> in two halves, split at its \<^verbatim>\<open>await\<close>. The first half
  runs up to the request: \<open>None\<close> is the early return of the guard, otherwise it yields
  the updated state and the three arguments of the request. The second half is the
  continuation, run on whatever the state is when the request settles; it still sees the
  \<^verbatim>\<open>activeThreadId\<close> of the render that created the handler. The setters for the message
  list are functional updates, so they append to the list of that later state.
\<close>

definition sendMessage_begin ::
  "clock \<Rightarrow> ChatState \<Rightarrow> (ChatState \<times> string \<times> bool \<times> string option) option" where
  "sendMessage_begin clk s =
     (if trim (inputValue s) = [] \<or> isLoading s then None
      else Some (s\<lparr>messages := messages s @ [userMessage clk (inputValue s)],
                    inputValue := [], isLoading := True\<rparr>,
                 inputValue s, memoryEnabled s, activeThreadId s))"

definition sendMessage_settle ::
  "clock \<Rightarrow> string option \<Rightarrow> thrown + ChatResponse \<Rightarrow> ChatState \<Rightarrow> ChatState" where
  "sendMessage_settle clk activeThreadId0 outcome s =
     (case outcome of
        Inr r \<Rightarrow>
          (let s1 = s\<lparr>messages := messages s @ [agentMessage clk r]\<rparr>;
               s2 = (if truthy (thread_id r) \<and> \<not> truthy activeThreadId0
                     then s1\<lparr>activeThreadId := thread_id r\<rparr> else s1)
           in s2\<lparr>loadThreads_calls := loadThreads_calls s2 + 1\<rparr>)
      | Inl e \<Rightarrow>
          s\<lparr>toasts := toasts s @ [errorToast e],
            messages := messages s @ [errorMessage clk]\<rparr>)
     \<lparr>isLoading := False\<rparr>"

definition ChatInterface_sendMessage ::
  "ChatResponse axios \<Rightarrow> clock \<Rightarrow> ChatState \<Rightarrow> ChatState" where
  "ChatInterface_sendMessage api clk s =
     (case sendMessage_begin clk s of
        None \<Rightarrow> s
      | Some (s1, messageText, mem, tid) \<Rightarrow>
          sendMessage_settle clk tid
            (chatAPI_sendMessage api messageText (Some mem) (Some tid)) s1)"

section \<open>The memory graph view (MemoryGraphView component)\<close>

datatype MemoryType = ShortTerm | UserProfile | Procedural

record MemoryTypeFilters =
  short_term :: bool
  user_profile :: bool
  procedural :: bool

text \<open>\<^verbatim>\<open>memoryFilters[memoryType]\<close>.\<close>

fun filter_of :: "MemoryTypeFilters \<Rightarrow> MemoryType \<Rightarrow> bool" where
  "filter_of f ShortTerm = short_term f"
| "filter_of f UserProfile = user_profile f"
| "filter_of f Procedural = procedural f"

definition getNodeLabel :: "GraphNode \<Rightarrow> string" where
  "getNodeLabel node =
     (if ''Thread'' \<in> set (labels node) then ''Thread''
      else if ''Message'' \<in> set (labels node) then ''Message''
      else if ''ReasoningStep'' \<in> set (labels node) then ''ReasoningStep''
      else if ''ToolCall'' \<in> set (labels node) then ''ToolCall''
      else if ''Tool'' \<in> set (labels node) then ''Tool''
      else if ''UserPreference'' \<in> set (labels node) then ''UserPreference''
      else if ''PreferenceCategory'' \<in> set (labels node) then ''PreferenceCategory''
      else if ''Location'' \<in> set (labels node) then ''Location''
      else if ''Person'' \<in> set (labels node) then ''Person''
      else if ''Organization'' \<in> set (labels node) then ''Organization''
      else if ''Topic'' \<in> set (labels node) then ''Topic''
      else (case labels node of [] \<Rightarrow> ''Unknown''
            | l # _ \<Rightarrow> if l = [] then ''Unknown'' else l))"

definition getNodeMemoryType :: "GraphNode \<Rightarrow> MemoryType" where
  "getNodeMemoryType node =
     (let nodeType = getNodeLabel node in
      if nodeType = ''Thread'' \<or> nodeType = ''Message'' then ShortTerm
      else if nodeType = ''UserPreference'' \<or> nodeType = ''PreferenceCategory'' \<or>
              nodeType = ''Location'' \<or> nodeType = ''Person'' \<or>
              nodeType = ''Organization'' \<or> nodeType = ''Topic'' then UserProfile
      else if nodeType = ''ReasoningStep'' \<or> nodeType = ''ToolCall'' \<or> nodeType = ''Tool''
      then Procedural
      else ShortTerm)"

definition filteredNodes :: "MemoryGraph option \<Rightarrow> MemoryTypeFilters \<Rightarrow> GraphNode list" where
  "filteredNodes graphData memoryFilters =
     (case graphData of
        None \<Rightarrow> []
      | Some g \<Rightarrow> filter (\<lambda>node. filter_of memoryFilters (getNodeMemoryType node)) (nodes g))"

definition filteredRelationships ::
  "MemoryGraph option \<Rightarrow> GraphNode list \<Rightarrow> GraphRelationship list" where
  "filteredRelationships graphData fNodes =
     (case graphData of
        None \<Rightarrow> []
      | Some g \<Rightarrow>
          (let visibleNodeIds = set (map node_id fNodes)
           in filter (\<lambda>rel. rel_from rel \<in> visibleNodeIds \<and> rel_to rel \<in> visibleNodeIds)
                (relationships g)))"

text \<open>
  What is handed to the graph widget. Of a rendered node the model keeps the id, the
  size, the selection mark and the original node; its caption and colour are strings
  computed from the node alone and read by nothing else.
\<close>

record NvlNode =
  nvl_id :: string
  nvl_size :: nat
  nvl_selected :: bool
  nvl_data :: "GraphNode option"

record NvlRelationship =
  nvlr_id :: string
  nvlr_from :: string
  nvlr_to :: string
  nvlr_caption :: string
  nvlr_selected :: bool

definition baseSize :: "string \<Rightarrow> nat" where
  "baseSize nodeType =
     (if nodeType = ''Thread'' then 25
      else if nodeType = ''Tool'' then 22
      else if nodeType = ''Message'' then 18
      else if nodeType = ''ReasoningStep'' then 16
      else if nodeType = ''ToolCall'' then 14
      else if nodeType = ''UserPreference'' then 16
      else if nodeType = ''PreferenceCategory'' then 20
      else if nodeType = ''Location'' then 18
      else if nodeType = ''Person'' then 18
      else if nodeType = ''Organization'' then 18
      else if nodeType = ''Topic'' then 18
      else 15)"

definition nvlNodes :: "GraphNode list \<Rightarrow> GraphNode option \<Rightarrow> NvlNode list" where
  "nvlNodes fNodes selNode =
     map (\<lambda>node.
            let isSelected = (case selNode of None \<Rightarrow> False | Some n \<Rightarrow> node_id n = node_id node);
                b = baseSize (getNodeLabel node)
            in \<lparr>nvl_id = node_id node, nvl_size = (if isSelected then b + 5 else b),
                nvl_selected = isSelected, nvl_data = Some node\<rparr>)
         fNodes"

definition nvlRelationships ::
  "GraphRelationship list \<Rightarrow> GraphRelationship option \<Rightarrow> NvlRelationship list" where
  "nvlRelationships fRels selRel =
     map (\<lambda>rel.
            \<lparr>nvlr_id = rel_id rel, nvlr_from = rel_from rel, nvlr_to = rel_to rel,
             nvlr_caption = rel_type rel,
             nvlr_selected = (case selRel of None \<Rightarrow> False | Some r \<Rightarrow> rel_id r = rel_id rel)\<rparr>)
         fRels"

subsection \<open>State and handlers\<close>

record ViewState =
  view_isLoading :: bool
  graphData :: "MemoryGraph option"
  view_error :: "string option"
  selectedNode :: "GraphNode option"
  selectedRelationship :: "GraphRelationship option"
  memoryFilters :: MemoryTypeFilters

definition initialView :: ViewState where
  "initialView =
     \<lparr>view_isLoading = False, graphData = None, view_error = None,
      selectedNode = None, selectedRelationship = None,
      memoryFilters = \<lparr>short_term = True, user_profile = True, procedural = True\<rparr>\<rparr>"

text \<open>
  \<^verbatim>\<open>loadGraphData\<close>, split at its \<^verbatim>\<open>await\<close> like the chat handler: the part before the
  request, and the continuation on the outcome of \<^verbatim>\<open>chatAPI.getMemoryGraph\<close>.
\<close>

definition loadGraphData_begin :: "ViewState \<Rightarrow> ViewState" where
  "loadGraphData_begin s =
     s\<lparr>view_isLoading := True, view_error := None,
       selectedNode := None, selectedRelationship := None\<rparr>"

definition loadGraphData_settle :: "thrown + MemoryGraph \<Rightarrow> ViewState \<Rightarrow> ViewState" where
  "loadGraphData_settle outcome s =
     (case outcome of
        Inr d \<Rightarrow>
          (if nodes d = []
           then s\<lparr>graphData := Some d,
                  view_error := Some ''No memory data available. Enable memory and chat to build your memory graph.''\<rparr>
           else s\<lparr>graphData := Some d\<rparr>)
      | Inl err \<Rightarrow> s\<lparr>view_error := Some (or_else (detail err) ''Failed to load memory graph'')\<rparr>)
     \<lparr>view_isLoading := False\<rparr>"

definition loadGraphData :: "MemoryGraph axios \<Rightarrow> ViewState \<Rightarrow> ViewState" where
  "loadGraphData api s = loadGraphData_settle (chatAPI_getMemoryGraph api) (loadGraphData_begin s)"

definition onNodeClick :: "NvlNode \<Rightarrow> ViewState \<Rightarrow> ViewState" where
  "onNodeClick node s =
     (case nvl_data node of
        Some originalData \<Rightarrow> s\<lparr>selectedNode := Some originalData, selectedRelationship := None\<rparr>
      | None \<Rightarrow> s)"

definition onRelationshipClick :: "NvlRelationship \<Rightarrow> ViewState \<Rightarrow> ViewState" where
  "onRelationshipClick rel s =
     (case graphData s of
        None \<Rightarrow> s
      | Some g \<Rightarrow>
          (case find (\<lambda>r. rel_id r = nvlr_id rel) (relationships g) of
             Some fullRel \<Rightarrow> s\<lparr>selectedRelationship := Some fullRel, selectedNode := None\<rparr>
           | None \<Rightarrow> s))"

definition closeProperties :: "ViewState \<Rightarrow> ViewState" where
  "closeProperties s = s\<lparr>selectedNode := None, selectedRelationship := None\<rparr>"

fun toggleFilter :: "MemoryType \<Rightarrow> MemoryTypeFilters \<Rightarrow> MemoryTypeFilters" where
  "toggleFilter ShortTerm prev = prev\<lparr>short_term := \<not> short_term prev\<rparr>"
| "toggleFilter UserProfile prev = prev\<lparr>user_profile := \<not> user_profile prev\<rparr>"
| "toggleFilter Procedural prev = prev\<lparr>procedural := \<not> procedural prev\<rparr>"

definition toggleAll :: "MemoryTypeFilters \<Rightarrow> MemoryTypeFilters" where
  "toggleAll f =
     (let allEnabled = (short_term f \<and> user_profile f \<and> procedural f)
      in \<lparr>short_term = \<not> allEnabled, user_profile = \<not> allEnabled, procedural = \<not> allEnabled\<rparr>)"

text \<open>
  Everything that can happen to the view: the two halves of a load (a refresh, a retry
  or the opening of the view), the clicks the widget reports, the close button of the
  property panel and the filter buttons.
\<close>

datatype view_event =
    LoadBegin
  | LoadSettle "thrown + MemoryGraph"
  | NodeClick NvlNode
  | RelationshipClick NvlRelationship
  | CloseProperties
  | ToggleFilter MemoryType
  | ToggleAll

fun view_step :: "ViewState \<Rightarrow> view_event \<Rightarrow> ViewState" where
  "view_step s LoadBegin = loadGraphData_begin s"
| "view_step s (LoadSettle outcome) = loadGraphData_settle outcome s"
| "view_step s (NodeClick node) = onNodeClick node s"
| "view_step s (RelationshipClick rel) = onRelationshipClick rel s"
| "view_step s CloseProperties = closeProperties s"
| "view_step s (ToggleFilter t) = s\<lparr>memoryFilters := toggleFilter t (memoryFilters s)\<rparr>"
| "view_step s ToggleAll = s\<lparr>memoryFilters := toggleAll (memoryFilters s)\<rparr>"

definition view_run :: "view_event list \<Rightarrow> ViewState" where
  "view_run es = foldl view_step initialView es"

section \<open>The memory graph engine\<close>

text \<open>
  Modelled from the spec: the backend that owns the memory graph (the Memory Repository,
  the Preference Merge Engine and the Agent Orchestrator of sections 3 and 4 of the
  specification) is not among the sources, which hold the frontend, the schema printed in
  the README and the documentation. Every definition of this section follows the words of
  the specification and the README's schema; none is a translation of code.

  Identifiers are opaque and unique, assigned by the writer: here the next value of a
  counter kept in the store. Timestamps are plain numbers supplied with each operation;
  nothing is assumed about them, in particular not that they grow.
\<close>

type_synonym ident = nat
type_synonym time = nat

datatype repo_error = NotFound

record thread_node =
  thread_title :: "string option"
  thread_created_at :: time
  thread_updated_at :: time
  thread_last_message_at :: "time option"

record message_node =
  message_thread :: ident
  message_text :: string
  message_sender :: sender
  message_timestamp :: time
  message_steps_json :: "string option"
  message_context_json :: "string option"

record step_node =
  step_no :: nat
  step_text :: "string option"
  step_message :: ident
  step_thread :: ident

text \<open>
  Modelled from the spec: a ToolCall node. \<open>call_step\<close> is its owning step (the
  \<^verbatim>\<open>USES_TOOL\<close> edge read backwards) and \<open>call_tool\<close> the name of its canonical Tool
  (the \<^verbatim>\<open>INSTANCE_OF\<close> edge).
\<close>

record toolcall_node =
  call_step :: ident
  call_timestamp :: time
  call_arguments :: string
  call_output :: string
  call_tool :: string

record tool_node =
  name :: string
  description :: string
  created_at :: time
  last_used_at :: time
  usage_count :: nat

datatype pref_category =
    topics_of_interest | detail_level | writing_style | topic_dislikes
  | geographic_focus | news_sources | other

record preference_node =
  pref_id :: ident
  category :: pref_category
  preference :: string
  pref_context :: string
  confidence :: real
  pref_created_at :: time
  last_updated :: time

record category_node =
  category_name :: pref_category
  category_description :: string

text \<open>
  Modelled from the spec: the graph store, one table per node label and one partial map
  per chain edge: \<^verbatim>\<open>FIRST_MESSAGE\<close> from a thread, \<^verbatim>\<open>NEXT_MESSAGE\<close> and \<^verbatim>\<open>NEXT_STEP\<close>
  from a node to its successor. \<open>tail_message\<close> is the cached pointer to a thread's last
  message that section 4.1 allows the repository to keep. Tools, preferences and
  categories are lists of nodes, so that "exactly one node" is a statement and not a
  property of the representation.
\<close>

record store =
  next_id :: ident
  threads :: "ident \<rightharpoonup> thread_node"
  msgs :: "ident \<rightharpoonup> message_node"
  first_message :: "ident \<rightharpoonup> ident"
  next_message :: "ident \<rightharpoonup> ident"
  tail_message :: "ident \<rightharpoonup> ident"
  steps :: "ident \<rightharpoonup> step_node"
  next_step :: "ident \<rightharpoonup> ident"
  toolcalls :: "ident \<rightharpoonup> toolcall_node"
  tools :: "tool_node list"
  preferences :: "preference_node list"
  categories :: "category_node list"

definition empty_store :: store where
  "empty_store =
     \<lparr>next_id = 0, threads = Map.empty, msgs = Map.empty, first_message = Map.empty,
      next_message = Map.empty, tail_message = Map.empty, steps = Map.empty,
      next_step = Map.empty, toolcalls = Map.empty, tools = [], preferences = [],
      categories = []\<rparr>"

subsection \<open>Threads and messages\<close>

text \<open>
  Modelled from the spec: \<^verbatim>\<open>create_thread(title?)\<close> generates the id, sets both
  timestamps to now and links no message. It always succeeds.
\<close>

definition create_thread :: "string option \<Rightarrow> time \<Rightarrow> store \<Rightarrow> ident \<times> store" where
  "create_thread title now st =
     (let t = next_id st
      in (t, st\<lparr>next_id := Suc t,
                threads := (threads st)(t \<mapsto>
                  \<lparr>thread_title = title, thread_created_at = now, thread_updated_at = now,
                   thread_last_message_at = None\<rparr>)\<rparr>))"

text \<open>
  Modelled from the spec: \<^verbatim>\<open>append_message\<close> fails with NotFound on an unknown
  thread. Otherwise, as one atomic step, it creates the message, makes it the
  \<^verbatim>\<open>FIRST_MESSAGE\<close> of a thread without messages or links it by \<^verbatim>\<open>NEXT_MESSAGE\<close> after
  the thread's current last message, and refreshes the thread's timestamps.
\<close>

definition append_message ::
  "ident \<Rightarrow> sender \<Rightarrow> string \<Rightarrow> string option \<Rightarrow> string option \<Rightarrow> time \<Rightarrow> store
     \<Rightarrow> repo_error + ident \<times> store" where
  "append_message t who txt rs ctx now st =
     (case threads st t of
        None \<Rightarrow> Inl NotFound
      | Some th \<Rightarrow>
          (let m = next_id st;
               node = \<lparr>message_thread = t, message_text = txt, message_sender = who,
                       message_timestamp = now, message_steps_json = rs,
                       message_context_json = ctx\<rparr>;
               st1 = st\<lparr>next_id := Suc m, msgs := (msgs st)(m \<mapsto> node)\<rparr>;
               st2 = (case tail_message st t of
                        None \<Rightarrow> st1\<lparr>first_message := (first_message st)(t \<mapsto> m)\<rparr>
                      | Some l \<Rightarrow> st1\<lparr>next_message := (next_message st)(l \<mapsto> m)\<rparr>)
           in Inr (m, st2\<lparr>tail_message := (tail_message st)(t \<mapsto> m),
                          threads := (threads st)(t \<mapsto>
                            th\<lparr>thread_updated_at := now,
                               thread_last_message_at := Some now\<rparr>)\<rparr>)))"

text \<open>
  Modelled from the spec: the walk of \<^verbatim>\<open>get_thread\<close>, from a message along
  \<^verbatim>\<open>NEXT_MESSAGE\<close> until a message without successor. On a cyclic chain the walk does
  not end; that is the value \<open>None\<close>. It reads the edges and nothing else.
\<close>

partial_function (option) walk :: "(ident \<rightharpoonup> ident) \<Rightarrow> ident \<Rightarrow> ident list option" where
  "walk nxt m =
     (case nxt m of
        None \<Rightarrow> Some [m]
      | Some m' \<Rightarrow> Option.bind (walk nxt m') (\<lambda>rest. Some (m # rest)))"

text \<open>
  Modelled from the spec: \<^verbatim>\<open>get_thread\<close> returns the thread with the ids of its
  messages in chain order (the node of an id is its entry in \<open>msgs\<close>), or NotFound.
\<close>

definition get_thread :: "store \<Rightarrow> ident \<Rightarrow> (repo_error + thread_node \<times> ident list) option" where
  "get_thread st t =
     (case threads st t of
        None \<Rightarrow> Some (Inl NotFound)
      | Some th \<Rightarrow>
          (case first_message st t of
             None \<Rightarrow> Some (Inr (th, []))
           | Some m \<Rightarrow> Option.bind (walk (next_message st) m) (\<lambda>ms. Some (Inr (th, ms)))))"

subsection \<open>Reasoning steps, tool calls and tools\<close>

record tool_call_in =
  used_tool :: string
  used_description :: string
  used_arguments :: string
  used_output :: string

record step_in =
  in_reasoning_text :: "string option"
  in_tool_calls :: "tool_call_in list"

text \<open>
  Modelled from the spec: the Tool upsert, a match by name over the Tool nodes. A
  matching node has its \<open>usage_count\<close> incremented and its \<open>last_used_at\<close> bumped, in
  place; without one a node is created with \<open>usage_count = 1\<close>.
\<close>

fun upsert_tool :: "time \<Rightarrow> string \<Rightarrow> string \<Rightarrow> tool_node list \<Rightarrow> tool_node list" where
  "upsert_tool now nm de [] =
     [\<lparr>name = nm, description = de, created_at = now, last_used_at = now, usage_count = 1\<rparr>]"
| "upsert_tool now nm de (t # ts) =
     (if name t = nm
      then t\<lparr>usage_count := usage_count t + 1, last_used_at := now\<rparr> # ts
      else t # upsert_tool now nm de ts)"

text \<open>
  Modelled from the spec: for each tool call of a step, a ToolCall node is created,
  linked to the step and to its Tool, and the Tool is upserted.
\<close>

fun add_tool_calls :: "time \<Rightarrow> ident \<Rightarrow> tool_call_in list \<Rightarrow> store \<Rightarrow> store" where
  "add_tool_calls now sid [] st = st"
| "add_tool_calls now sid (c # cs) st =
     add_tool_calls now sid cs
       (st\<lparr>next_id := Suc (next_id st),
           toolcalls := (toolcalls st)(next_id st \<mapsto>
             \<lparr>call_step = sid, call_timestamp = now, call_arguments = used_arguments c,
              call_output = used_output c, call_tool = used_tool c\<rparr>),
           tools := upsert_tool now (used_tool c) (used_description c) (tools st)\<rparr>)"

text \<open>
  Modelled from the spec: the steps of a message, numbered from 1 in the order given
  and chained by \<^verbatim>\<open>NEXT_STEP\<close> from each step to the next. \<open>i\<close> is the number of the
  step being created and \<open>prev\<close> the step before it.
\<close>

fun add_steps ::
  "time \<Rightarrow> ident \<Rightarrow> ident \<Rightarrow> nat \<Rightarrow> ident option \<Rightarrow> step_in list \<Rightarrow> store \<Rightarrow> store" where
  "add_steps now mid tid i prev [] st = st"
| "add_steps now mid tid i prev (x # xs) st =
     (let sid = next_id st;
          st1 = st\<lparr>next_id := Suc sid,
                   steps := (steps st)(sid \<mapsto>
                     \<lparr>step_no = i, step_text = in_reasoning_text x, step_message = mid,
                      step_thread = tid\<rparr>),
                   next_step := (case prev of None \<Rightarrow> next_step st
                                 | Some p \<Rightarrow> (next_step st)(p \<mapsto> sid))\<rparr>
      in add_steps now mid tid (Suc i) (Some sid) xs
           (add_tool_calls now sid (in_tool_calls x) st1))"

definition append_reasoning_steps ::
  "ident \<Rightarrow> step_in list \<Rightarrow> time \<Rightarrow> store \<Rightarrow> repo_error + store" where
  "append_reasoning_steps mid xs now st =
     (case msgs st mid of
        None \<Rightarrow> Inl NotFound
      | Some msg \<Rightarrow> Inr (add_steps now mid (message_thread msg) 1 None xs st))"

subsection \<open>Deleting a thread\<close>

text \<open>
  Modelled from the spec: \<^verbatim>\<open>delete_thread\<close> cascades to the messages of the thread,
  to its reasoning steps and to the tool calls of those steps, and takes the chain edges
  at deleted nodes with them. Tools, preferences and categories are not part of the
  cascade. Which nodes belong to the thread is read off the store before the deletion.
\<close>

definition message_of :: "store \<Rightarrow> ident \<Rightarrow> ident \<Rightarrow> bool" where
  "message_of st t m = (case msgs st m of None \<Rightarrow> False | Some x \<Rightarrow> message_thread x = t)"

definition step_of :: "store \<Rightarrow> ident \<Rightarrow> ident \<Rightarrow> bool" where
  "step_of st t k = (case steps st k of None \<Rightarrow> False | Some x \<Rightarrow> step_thread x = t)"

definition toolcall_of :: "store \<Rightarrow> ident \<Rightarrow> ident \<Rightarrow> bool" where
  "toolcall_of st t c = (case toolcalls st c of None \<Rightarrow> False | Some x \<Rightarrow> step_of st t (call_step x))"

definition without :: "('k \<Rightarrow> bool) \<Rightarrow> ('k \<rightharpoonup> 'v) \<Rightarrow> ('k \<rightharpoonup> 'v)" where
  "without gone m = (\<lambda>k. if gone k then None else m k)"

definition unlink :: "('k \<Rightarrow> bool) \<Rightarrow> ('k \<rightharpoonup> 'k) \<Rightarrow> ('k \<rightharpoonup> 'k)" where
  "unlink gone e =
     (\<lambda>k. if gone k then None
          else (case e k of None \<Rightarrow> None | Some k' \<Rightarrow> if gone k' then None else Some k'))"

definition delete_thread :: "ident \<Rightarrow> store \<Rightarrow> store" where
  "delete_thread t st =
     st\<lparr>threads := (threads st)(t := None),
        first_message := (first_message st)(t := None),
        tail_message := (tail_message st)(t := None),
        msgs := without (message_of st t) (msgs st),
        next_message := unlink (message_of st t) (next_message st),
        steps := without (step_of st t) (steps st),
        next_step := unlink (step_of st t) (next_step st),
        toolcalls := without (toolcall_of st t) (toolcalls st)\<rparr>"

subsection \<open>Preferences\<close>

record candidate =
  cand_category :: pref_category
  cand_preference :: string
  cand_context :: string
  cand_confidence :: real

text \<open>
  Modelled from the spec: the judgement "semantic duplicate" is a policy the specification
  leaves open; it is a parameter here, applied to the candidate's text and an existing
  preference's text. The first existing preference of the candidate's category that is judged
  a duplicate is updated: its text becomes the candidate's, its confidence the larger of
  the two, its \<open>last_updated\<close> now. \<open>None\<close> says that there is no duplicate.
\<close>

fun update_duplicate ::
  "(string \<Rightarrow> string \<Rightarrow> bool) \<Rightarrow> time \<Rightarrow> candidate \<Rightarrow> preference_node list
     \<Rightarrow> preference_node list option" where
  "update_duplicate dup now c [] = None"
| "update_duplicate dup now c (p # ps) =
     (if category p = cand_category c \<and> dup (cand_preference c) (preference p)
      then Some (p\<lparr>preference := cand_preference c,
                   confidence := max (confidence p) (cand_confidence c),
                   last_updated := now\<rparr> # ps)
      else map_option ((#) p) (update_duplicate dup now c ps))"

text \<open>
  Modelled from the spec: the descriptions of the seven categories, as the README lists
  them, and the upsert of a category on first use.
\<close>

fun describe_category :: "pref_category \<Rightarrow> string" where
  "describe_category topics_of_interest = ''News topics the user is interested in''"
| "describe_category detail_level = ''Preferred level of detail (brief, detailed, etc.)''"
| "describe_category writing_style = ''Preferred communication style''"
| "describe_category topic_dislikes = ''Topics to avoid or minimize''"
| "describe_category geographic_focus = ''Geographic regions of interest''"
| "describe_category news_sources = ''Preferred news sources''"
| "describe_category other = ''Other user preferences''"

definition upsert_category :: "pref_category \<Rightarrow> category_node list \<Rightarrow> category_node list" where
  "upsert_category c cs =
     (if c \<in> category_name ` set cs then cs
      else cs @ [\<lparr>category_name = c, category_description = describe_category c\<rparr>])"

text \<open>
  Modelled from the spec: the merge of one candidate: update the duplicate if there is
  one, otherwise insert a new preference with a fresh id and upsert its category.
\<close>

definition merge_preference ::
  "(string \<Rightarrow> string \<Rightarrow> bool) \<Rightarrow> candidate \<Rightarrow> time \<Rightarrow> store \<Rightarrow> store" where
  "merge_preference dup c now st =
     (case update_duplicate dup now c (preferences st) of
        Some ps \<Rightarrow> st\<lparr>preferences := ps\<rparr>
      | None \<Rightarrow>
          st\<lparr>next_id := Suc (next_id st),
             preferences := preferences st @
               [\<lparr>pref_id = next_id st, category = cand_category c,
                 preference = cand_preference c, pref_context = cand_context c,
                 confidence = cand_confidence c, pref_created_at = now,
                 last_updated = now\<rparr>],
             categories := upsert_category (cand_category c) (categories st)\<rparr>)"

definition delete_preference :: "ident \<Rightarrow> store \<Rightarrow> store" where
  "delete_preference k st = st\<lparr>preferences := filter (\<lambda>p. pref_id p \<noteq> k) (preferences st)\<rparr>"

definition clear_preferences :: "store \<Rightarrow> store" where
  "clear_preferences st = st\<lparr>preferences := []\<rparr>"

subsection \<open>Histories\<close>

text \<open>
  Modelled from the spec: the operations a client of the repository can issue, and a run
  of them from the empty store. An operation that fails writes nothing. Next to the
  store the run keeps a log that no operation reads: for each thread the ids of the
  messages created for it, in the order of their creation (emptied when the thread is
  deleted), and for each tool name the number of tool calls recorded under it.
\<close>

datatype op =
    CreateThread "string option" time
  | AppendMessage ident sender string "string option" "string option" time
  | AppendReasoningSteps ident "step_in list" time
  | DeleteThread ident
  | MergePreference candidate time
  | DeletePreference ident
  | ClearPreferences

fun exec :: "(string \<Rightarrow> string \<Rightarrow> bool) \<Rightarrow> store \<Rightarrow> op \<Rightarrow> store" where
  "exec dup st (CreateThread title now) = snd (create_thread title now st)"
| "exec dup st (AppendMessage t who txt rs ctx now) =
     (case append_message t who txt rs ctx now st of Inl _ \<Rightarrow> st | Inr (_, st') \<Rightarrow> st')"
| "exec dup st (AppendReasoningSteps mid xs now) =
     (case append_reasoning_steps mid xs now st of Inl _ \<Rightarrow> st | Inr st' \<Rightarrow> st')"
| "exec dup st (DeleteThread t) = delete_thread t st"
| "exec dup st (MergePreference c now) = merge_preference dup c now st"
| "exec dup st (DeletePreference k) = delete_preference k st"
| "exec dup st ClearPreferences = clear_preferences st"

record log =
  created :: "ident \<Rightarrow> ident list"
  invoked :: "string \<Rightarrow> nat"

definition names_used :: "step_in list \<Rightarrow> string list" where
  "names_used xs = map used_tool (concat (map in_tool_calls xs))"

fun observe :: "store \<Rightarrow> op \<Rightarrow> log \<Rightarrow> log" where
  "observe st (AppendMessage t who txt rs ctx now) g =
     (case append_message t who txt rs ctx now st of
        Inl _ \<Rightarrow> g
      | Inr (m, _) \<Rightarrow> g\<lparr>created := (created g)(t := created g t @ [m])\<rparr>)"
| "observe st (AppendReasoningSteps mid xs now) g =
     (case append_reasoning_steps mid xs now st of
        Inl _ \<Rightarrow> g
      | Inr _ \<Rightarrow> g\<lparr>invoked := (\<lambda>n. invoked g n + count_list (names_used xs) n)\<rparr>)"
| "observe st (DeleteThread t) g = g\<lparr>created := (created g)(t := [])\<rparr>"
| "observe st _ g = g"

definition repo_step ::
  "(string \<Rightarrow> string \<Rightarrow> bool) \<Rightarrow> store \<times> log \<Rightarrow> op \<Rightarrow> store \<times> log" where
  "repo_step dup sg x = (exec dup (fst sg) x, observe (fst sg) x (snd sg))"

definition repo_run :: "(string \<Rightarrow> string \<Rightarrow> bool) \<Rightarrow> op list \<Rightarrow> store \<times> log" where
  "repo_run dup xs =
     foldl (repo_step dup) (empty_store, \<lparr>created = (\<lambda>_. []), invoked = (\<lambda>_. 0)\<rparr>) xs"

text \<open>
  A list of ids is \<open>linked\<close> when each of its elements points to the next one and the
  last one points nowhere: the shape of a chain that a walk from its head reads back.
\<close>

fun linked :: "(ident \<rightharpoonup> ident) \<Rightarrow> ident list \<Rightarrow> bool" where
  "linked nxt [] = True"
| "linked nxt [m] = (nxt m = None)"
| "linked nxt (m # m' # ms) = (nxt m = Some m' \<and> linked nxt (m' # ms))"

text \<open>
  What a run maintains between the store and its log of created messages: the chain of
  every thread is the logged list (head, tail pointer and links), the logged lists are
  free of repetitions and hold exactly the stored messages of their thread, and ids in
  use lie below the counter.
\<close>

definition repo_inv :: "store \<Rightarrow> log \<Rightarrow> bool" where
  "repo_inv st g =
     ((\<forall>t. first_message st t = (case created g t of [] \<Rightarrow> None | m # _ \<Rightarrow> Some m))
    \<and> (\<forall>t. tail_message st t = (if created g t = [] then None else Some (last (created g t))))
    \<and> (\<forall>t. linked (next_message st) (created g t))
    \<and> (\<forall>t. distinct (created g t))
    \<and> (\<forall>t m. m \<in> set (created g t) \<longleftrightarrow> message_of st t m)
    \<and> (\<forall>m. msgs st m \<noteq> None \<longrightarrow> m < next_id st)
    \<and> (\<forall>m. next_message st m \<noteq> None \<longrightarrow> msgs st m \<noteq> None)
    \<and> (\<forall>t. threads st t = None \<longrightarrow> created g t = [])
    \<and> (\<forall>t. threads st t \<noteq> None \<longrightarrow> t < next_id st))"

text \<open>
  What a run maintains between the Tool nodes and its log of tool calls: names are not
  repeated among the nodes, a node's \<open>usage_count\<close> is the number of calls logged under
  its name, and a name without node has no logged call.
\<close>

definition tools_inv :: "tool_node list \<Rightarrow> (string \<Rightarrow> nat) \<Rightarrow> bool" where
  "tools_inv ts u =
     (distinct (map name ts)
    \<and> (\<forall>t \<in> set ts. usage_count t = u (name t))
    \<and> (\<forall>n. n \<notin> name ` set ts \<longrightarrow> u n = 0)
    \<and> (\<forall>t \<in> set ts. 0 < usage_count t))"

subsection \<open>Tool execution with retry\<close>

text \<open>
  Modelled from the spec: the retry policy of the ToolExecution state. A tool is called
  at most three times. A result whose primary collection is empty is insufficient: the
  parameter (limit, radius or range) is then multiplied by the escalation factor and the
  tool is called again. Every attempt is recorded with its parameter and result. The
  tool is a function of the number of the call and of the parameter, which covers both a
  stub that counts its calls and one that looks at its argument.
\<close>

record 'a attempt =
  attempt_tool :: string
  attempt_parameter :: nat
  attempt_output :: "'a list"

definition max_attempts :: nat where
  "max_attempts = 3"

fun retry_loop ::
  "(nat \<Rightarrow> nat \<Rightarrow> 'a list) \<Rightarrow> nat \<Rightarrow> string \<Rightarrow> nat \<Rightarrow> nat \<Rightarrow> nat \<Rightarrow> 'a attempt list" where
  "retry_loop tool factor nm 0 i p = []"
| "retry_loop tool factor nm (Suc left) i p =
     (let out = tool i p;
          entry = \<lparr>attempt_tool = nm, attempt_parameter = p, attempt_output = out\<rparr>
      in if out = [] then entry # retry_loop tool factor nm left (Suc i) (p * factor)
         else [entry])"

definition execute_tool ::
  "(nat \<Rightarrow> nat \<Rightarrow> 'a list) \<Rightarrow> nat \<Rightarrow> string \<Rightarrow> nat \<Rightarrow> 'a attempt list" where
  "execute_tool tool factor nm p = retry_loop tool factor nm max_attempts 1 p"

section \<open>Sample inputs\<close>

text \<open>Concrete backends, states and graphs at which the theorems below are instantiated.\<close>

definition sample_reply :: ChatResponse where
  "sample_reply =
     \<lparr>response = ''hi'', reasoning_steps = [], agent_context = None, thread_id = Some ''t1''\<rparr>"

definition chat_backend :: "ChatResponse axios" where
  "chat_backend req =
     (if req_method req = POST \<and> req_url req = ''/chat''
      then Inr \<lparr>status = 200, data = sample_reply\<rparr>
      else Inl \<lparr>detail = None\<rparr>)"

definition failing_backend :: "ChatResponse axios" where
  "failing_backend req = Inl \<lparr>detail = Some ''boom''\<rparr>"

definition sample_chat :: ChatState where
  "sample_chat =
     \<lparr>messages = [], inputValue = '' hi '', isLoading = False, isConnected = True,
      memoryEnabled = True, activeThreadId = None, sidebarOpen = False,
      activeThreadTitle = ''New Conversation'', memoryGraphOpen = False,
      toasts = [], loadThreads_calls = 0\<rparr>"

definition sample_clock :: clock where
  "sample_clock = \<lparr>now_sent = 41, date_sent = 41, now_settled = 98, date_settled = 99\<rparr>"

definition sample_graph :: MemoryGraph where
  "sample_graph =
     \<lparr>nodes =
        [\<lparr>node_id = ''n1'', labels = [''Thread''], node_properties = []\<rparr>,
         \<lparr>node_id = ''n2'', labels = [''Message''], node_properties = []\<rparr>,
         \<lparr>node_id = ''n3'', labels = [''Tool''], node_properties = []\<rparr>,
         \<lparr>node_id = ''n4'', labels = [''UserPreference''], node_properties = []\<rparr>],
      relationships =
        [\<lparr>rel_id = ''r1'', rel_from = ''n1'', rel_to = ''n2'', rel_type = ''FIRST_MESSAGE'',
          rel_properties = []\<rparr>,
         \<lparr>rel_id = ''r2'', rel_from = ''n2'', rel_to = ''n3'', rel_type = ''USED'',
          rel_properties = []\<rparr>,
         \<lparr>rel_id = ''r3'', rel_from = ''n4'', rel_to = ''n1'', rel_type = ''ABOUT'',
          rel_properties = []\<rparr>]\<rparr>"

definition sample_filters :: MemoryTypeFilters where
  "sample_filters = \<lparr>short_term = True, user_profile = True, procedural = False\<rparr>"

definition sample_node :: NvlNode where
  "sample_node =
     \<lparr>nvl_id = ''n1'', nvl_size = 25, nvl_selected = False,
      nvl_data = Some \<lparr>node_id = ''n1'', labels = [''Thread''], node_properties = []\<rparr>\<rparr>"

definition sample_rel :: NvlRelationship where
  "sample_rel =
     \<lparr>nvlr_id = ''r3'', nvlr_from = ''n4'', nvlr_to = ''n1'',
      nvlr_caption = ''ABOUT'', nvlr_selected = False\<rparr>"

definition sample_loaded :: ViewState where
  "sample_loaded = view_run [LoadBegin, LoadSettle (Inr sample_graph)]"

definition sample_clicks :: "view_event list" where
  "sample_clicks =
     [LoadBegin, LoadSettle (Inr sample_graph), NodeClick sample_node,
      RelationshipClick sample_rel]"

definition same_text :: "string \<Rightarrow> string \<Rightarrow> bool" where
  "same_text a b = (a = b)"

definition search_call :: tool_call_in where
  "search_call =
     \<lparr>used_tool = ''search_news'', used_description = ''Search news articles'',
      used_arguments = ''{}'', used_output = ''[]''\<rparr>"

definition geo_call :: tool_call_in where
  "geo_call =
     \<lparr>used_tool = ''search_by_location'', used_description = ''Search news near a place'',
      used_arguments = ''{}'', used_output = ''[]''\<rparr>"

text \<open>
  Two threads written in turns, with timestamps that repeat and go backwards, an append
  to a thread that does not exist, and two turns that record tool calls.
\<close>

definition sample_ops :: "op list" where
  "sample_ops =
     [CreateThread None 10,
      CreateThread (Some ''b'') 10,
      AppendMessage 0 User ''one'' None None 7,
      AppendMessage 1 User ''x'' None None 7,
      AppendMessage 0 Agent ''two'' None None 7,
      AppendMessage 9 User ''lost'' None None 8,
      AppendMessage 0 User ''three'' None None 3,
      AppendReasoningSteps 4
        [\<lparr>in_reasoning_text = Some ''look'', in_tool_calls = [search_call, geo_call]\<rparr>,
         \<lparr>in_reasoning_text = None, in_tool_calls = [search_call]\<rparr>] 20,
      AppendReasoningSteps 3
        [\<lparr>in_reasoning_text = None, in_tool_calls = [search_call]\<rparr>] 30]"






text \<open>
  A tool stub that answers its first two calls with nothing and its third call with
  three articles, provided the limit has grown to at least 20.
\<close>

definition slow_stub :: "nat \<Rightarrow> nat \<Rightarrow> string list" where
  "slow_stub i limit = (if 3 \<le> i \<and> 20 \<le> limit then [''a1'', ''a2'', ''a3''] else [])"

section \<open>Properties of the client\<close>

text \<open>
  C5. Every call of the client's \<^verbatim>\<open>sendMessage\<close> issues one POST to \<^verbatim>\<open>/chat\<close> whose
  body has exactly the fields message, memory_enabled and thread_id, holding the three
  arguments (false and null standing in for omitted ones); when the request resolves,
  the value returned is the response's data, a record of the response text, the ordered
  reasoning steps, the agent context and the thread id; when it rejects, the error is
  passed on unchanged.
\<close>

theorem sendMessage_request_and_result:
  fixes api :: "ChatResponse axios"
  defines "me \<equiv> (\<lambda>a. case a of None \<Rightarrow> False | Some b \<Rightarrow> b)"
      and "ti \<equiv> (\<lambda>a. case a of None \<Rightarrow> None | Some (t :: string option) \<Rightarrow> t)"
  shows "\<exists>body.
           chatAPI_sendMessage api message mem_arg tid_arg =
             map_sum id data (api \<lparr>req_method = POST, req_url = ''/chat'', req_body = Some body\<rparr>)
         \<and> map fst (obj_fields body) = [''message'', ''memory_enabled'', ''thread_id'']
         \<and> map_of (obj_fields body) ''message'' = Some (JStr message)
         \<and> map_of (obj_fields body) ''memory_enabled'' = Some (JBool (me mem_arg))
         \<and> map_of (obj_fields body) ''thread_id'' =
              Some (case ti tid_arg of None \<Rightarrow> JNull | Some t \<Rightarrow> JStr t)"
proof -
  let ?body = "chat_body message (me mem_arg) (ti tid_arg)"
  have "chatAPI_sendMessage api message mem_arg tid_arg =
          map_sum id data (api \<lparr>req_method = POST, req_url = ''/chat'', req_body = Some ?body\<rparr>)"
    by (simp add: chatAPI_sendMessage_def me_def ti_def split: sum.split)
  moreover have "map fst (obj_fields ?body) = [''message'', ''memory_enabled'', ''thread_id'']"
    by (simp add: chat_body_def)
  moreover have "map_of (obj_fields ?body) ''message'' = Some (JStr message)"
    by (simp add: chat_body_def)
  moreover have "map_of (obj_fields ?body) ''memory_enabled'' = Some (JBool (me mem_arg))"
    by (simp add: chat_body_def)
  moreover have "map_of (obj_fields ?body) ''thread_id'' =
                   Some (case ti tid_arg of None \<Rightarrow> JNull | Some t \<Rightarrow> JStr t)"
    by (simp add: chat_body_def)
  ultimately show ?thesis by (intro exI [of _ ?body] conjI)
qed

theorem sendMessage_request_and_result_witness:
  "\<exists>body.
     chatAPI_sendMessage chat_backend ''hello'' None None = Inr sample_reply
   \<and> map fst (obj_fields body) = [''message'', ''memory_enabled'', ''thread_id'']
   \<and> map_of (obj_fields body) ''message'' = Some (JStr ''hello'')
   \<and> map_of (obj_fields body) ''memory_enabled'' = Some (JBool False)
   \<and> map_of (obj_fields body) ''thread_id'' = Some JNull"
  using sendMessage_request_and_result
          [where api = chat_backend and message = "''hello''" and mem_arg = None and tid_arg = None]
  by (auto simp: chat_backend_def)

text \<open>
  C10. \<^verbatim>\<open>healthCheck\<close> always returns a boolean and never throws: the boolean is true
  exactly when the GET of \<^verbatim>\<open>/health\<close> resolves with status 200, and it is false
  whenever that request throws.
\<close>

theorem healthCheck_total:
  fixes api :: "'d axios"
  defines "outcome \<equiv> api \<lparr>req_method = GET, req_url = ''/health'', req_body = None\<rparr>"
  shows "(\<exists>b. chatAPI_healthCheck api = Inr b)
       \<and> (chatAPI_healthCheck api = Inr True \<longleftrightarrow> (\<exists>r. outcome = Inr r \<and> status r = 200))
       \<and> ((\<exists>e. outcome = Inl e) \<longrightarrow> chatAPI_healthCheck api = Inr False)"
  by (cases outcome) (auto simp: chatAPI_healthCheck_def outcome_def)

theorem healthCheck_total_witness:
  "chatAPI_healthCheck (\<lambda>_. Inl \<lparr>detail = None\<rparr> :: thrown + unit axios_response) = Inr False
 \<and> chatAPI_healthCheck (\<lambda>_. Inr \<lparr>status = 200, data = ()\<rparr>) = Inr True
 \<and> chatAPI_healthCheck (\<lambda>_. Inr \<lparr>status = 204, data = ()\<rparr>) \<noteq> Inr True"
  using healthCheck_total [where api = "\<lambda>_. Inl \<lparr>detail = None\<rparr> :: thrown + unit axios_response"]
        healthCheck_total [where api = "\<lambda>_. Inr \<lparr>status = 200, data = ()\<rparr>"]
        healthCheck_total [where api = "\<lambda>_. Inr \<lparr>status = 204, data = ()\<rparr>"]
  by simp

section \<open>Properties of the chat screen\<close>

lemma settle_failure_messages:
  "messages (sendMessage_settle clk tid (Inl e) s1) = messages s1 @ [errorMessage clk]"
  by (simp add: sendMessage_settle_def)

lemma settle_not_loading: "\<not> isLoading (sendMessage_settle clk tid outcome s1)"
  by (simp add: sendMessage_settle_def)

text \<open>
  C6. When the request of a chat turn throws, the turn still ends with a reply on the
  screen: the handler appends, after the user's message, a message whose sender is the
  agent and whose text is the fixed apology, and the loading flag is false afterwards.
  The same holds for the handler's continuation alone, on whatever state the screen is
  in when the request fails. (The two hypotheses on the state say that the handler got
  as far as issuing the request: a non-blank input and no turn in flight.)
\<close>

theorem sendMessage_failure_degrades:
  assumes "trim (inputValue s) \<noteq> []" and "\<not> isLoading s"
      and "chatAPI_sendMessage api (inputValue s) (Some (memoryEnabled s))
             (Some (activeThreadId s)) = Inl e"
  shows "messages (ChatInterface_sendMessage api clk s) =
           messages s @ [userMessage clk (inputValue s), errorMessage clk]
       \<and> msg_sender (errorMessage clk) = Agent
       \<and> msg_text (errorMessage clk) =
           ''Sorry, I encountered an error processing your request. Please try again.''
       \<and> isLoading (ChatInterface_sendMessage api clk s) = False
       \<and> (\<forall>s1 tid. messages (sendMessage_settle clk tid (Inl e) s1) =
                      messages s1 @ [errorMessage clk]
                  \<and> isLoading (sendMessage_settle clk tid (Inl e) s1) = False)"
proof -
  let ?s1 = "s\<lparr>messages := messages s @ [userMessage clk (inputValue s)],
               inputValue := [], isLoading := True\<rparr>"
  have run: "ChatInterface_sendMessage api clk s =
               sendMessage_settle clk (activeThreadId s) (Inl e) ?s1"
    using assms by (simp add: ChatInterface_sendMessage_def sendMessage_begin_def)
  have "messages (ChatInterface_sendMessage api clk s) =
          messages s @ [userMessage clk (inputValue s), errorMessage clk]"
    by (simp add: run settle_failure_messages)
  moreover have "isLoading (ChatInterface_sendMessage api clk s) = False"
    by (simp add: run settle_not_loading)
  moreover have "msg_sender (errorMessage clk) = Agent"
    by (simp add: errorMessage_def)
  moreover have "msg_text (errorMessage clk) =
      ''Sorry, I encountered an error processing your request. Please try again.''"
    by (simp add: errorMessage_def)
  ultimately show ?thesis
    by (simp add: settle_failure_messages settle_not_loading)
qed

theorem sendMessage_failure_degrades_witness:
  "trim (inputValue sample_chat) \<noteq> [] \<and> \<not> isLoading sample_chat
 \<and> map (\<lambda>m. (msg_id m, msg_sender m, msg_text m))
      (messages (ChatInterface_sendMessage failing_backend sample_clock sample_chat)) =
     [(''41'', User, '' hi ''),
      (''99'', Agent,
       ''Sorry, I encountered an error processing your request. Please try again.'')]
 \<and> \<not> isLoading (ChatInterface_sendMessage failing_backend sample_clock sample_chat)"
proof -
  have h1: "trim (inputValue sample_chat) \<noteq> []"
    by (simp add: sample_chat_def trim_def isWhiteSpace_def)
  have h2: "\<not> isLoading sample_chat"
    by (simp add: sample_chat_def)
  have h3: "chatAPI_sendMessage failing_backend (inputValue sample_chat)
              (Some (memoryEnabled sample_chat)) (Some (activeThreadId sample_chat)) =
            Inl \<lparr>detail = Some ''boom''\<rparr>"
    by (simp add: chatAPI_sendMessage_def failing_backend_def)
  have ids: "toString 41 = ''41''" "toString 99 = ''99''"
    by code_simp+
  from sendMessage_failure_degrades [OF h1 h2 h3, of sample_clock] h1 h2 show ?thesis
    by (simp add: userMessage_def errorMessage_def ids sample_chat_def sample_clock_def)
qed

section \<open>Properties of the memory graph view\<close>

lemma nvlNodes_ids: "nvl_id ` set (nvlNodes fn sel) = node_id ` set fn"
  by (auto simp: nvlNodes_def Let_def image_iff)

lemma nvlNodes_data: "n \<in> set (nvlNodes fn sel) \<Longrightarrow> \<exists>d \<in> set fn. nvl_data n = Some d"
  by (auto simp: nvlNodes_def Let_def)

text \<open>
  C8. For a loaded graph and any setting of the three filters, the nodes shown are the
  graph's nodes whose memory type is switched on, and the relationships handed to the
  widget are exactly the graph's relationships whose two ends are ids of shown nodes, in
  the graph's order and with their ids and ends unchanged; so every relationship the
  widget receives starts and ends at a node it receives.
\<close>

theorem filteredRelationships_exact:
  fixes g :: MemoryGraph and f :: MemoryTypeFilters
  defines "fn \<equiv> filteredNodes (Some g) f"
  defines "fr \<equiv> filteredRelationships (Some g) fn"
  shows "set fn = {n \<in> set (nodes g). filter_of f (getNodeMemoryType n)}
       \<and> set fr = {r \<in> set (relationships g).
                    rel_from r \<in> node_id ` set fn \<and> rel_to r \<in> node_id ` set fn}
       \<and> fr = filter (\<lambda>r. rel_from r \<in> node_id ` set fn \<and> rel_to r \<in> node_id ` set fn)
                 (relationships g)
       \<and> map (\<lambda>r. (nvlr_id r, nvlr_from r, nvlr_to r)) (nvlRelationships fr selR) =
           map (\<lambda>r. (rel_id r, rel_from r, rel_to r)) fr
       \<and> (\<forall>r \<in> set (nvlRelationships fr selR).
             nvlr_from r \<in> nvl_id ` set (nvlNodes fn selN) \<and>
             nvlr_to r \<in> nvl_id ` set (nvlNodes fn selN))"
proof -
  have a: "set fn = {n \<in> set (nodes g). filter_of f (getNodeMemoryType n)}"
    by (auto simp: fn_def filteredNodes_def)
  have c: "fr = filter (\<lambda>r. rel_from r \<in> node_id ` set fn \<and> rel_to r \<in> node_id ` set fn)
                  (relationships g)"
    by (simp add: fr_def filteredRelationships_def)
  have b: "set fr = {r \<in> set (relationships g).
                      rel_from r \<in> node_id ` set fn \<and> rel_to r \<in> node_id ` set fn}"
    by (subst c) auto
  have d: "map (\<lambda>r. (nvlr_id r, nvlr_from r, nvlr_to r)) (nvlRelationships fr selR) =
             map (\<lambda>r. (rel_id r, rel_from r, rel_to r)) fr"
    by (simp add: nvlRelationships_def comp_def)
  have e: "\<forall>r \<in> set (nvlRelationships fr selR).
             nvlr_from r \<in> nvl_id ` set (nvlNodes fn selN) \<and>
             nvlr_to r \<in> nvl_id ` set (nvlNodes fn selN)"
    using b by (auto simp: nvlRelationships_def nvlNodes_ids)
  from a b c d e show ?thesis by (intro conjI)
qed

theorem filteredRelationships_exact_witness:
  "map node_id (filteredNodes (Some sample_graph) sample_filters) = [''n1'', ''n2'', ''n4'']
 \<and> map (\<lambda>r. (nvlr_id r, nvlr_from r, nvlr_to r))
       (nvlRelationships
          (filteredRelationships (Some sample_graph)
             (filteredNodes (Some sample_graph) sample_filters)) None) =
     [(''r1'', ''n1'', ''n2''), (''r3'', ''n4'', ''n1'')]"
proof -
  let ?fn = "filteredNodes (Some sample_graph) sample_filters"
  let ?fr = "filteredRelationships (Some sample_graph) ?fn"
  have fn: "map node_id ?fn = [''n1'', ''n2'', ''n4'']"
    by (simp add: filteredNodes_def sample_graph_def sample_filters_def
          getNodeMemoryType_def getNodeLabel_def)
  have ids: "node_id ` set ?fn = {''n1'', ''n2'', ''n4''}"
    unfolding set_map [symmetric] fn by simp
  note exact = filteredRelationships_exact
         [where g = sample_graph and f = sample_filters and selR = None and selN = None]
  have fr: "?fr = filter (\<lambda>r. rel_from r \<in> node_id ` set ?fn \<and> rel_to r \<in> node_id ` set ?fn)
                    (relationships sample_graph)"
    using exact by (elim conjE)
  have nv: "map (\<lambda>r. (nvlr_id r, nvlr_from r, nvlr_to r)) (nvlRelationships ?fr None) =
             map (\<lambda>r. (rel_id r, rel_from r, rel_to r)) ?fr"
    using exact by (elim conjE)
  have "map (\<lambda>r. (rel_id r, rel_from r, rel_to r)) ?fr =
          [(''r1'', ''n1'', ''n2''), (''r3'', ''n4'', ''n1'')]"
    by (subst fr, unfold ids) (simp add: sample_graph_def)
  with nv fn show ?thesis
    by (simp only: simp_thms)
qed

lemma view_step_exclusive:
  assumes "selectedNode s = None \<or> selectedRelationship s = None"
  shows "selectedNode (view_step s e) = None \<or> selectedRelationship (view_step s e) = None"
proof (cases e)
  case LoadBegin
  then show ?thesis by (simp add: loadGraphData_begin_def)
next
  case (LoadSettle outcome)
  with assms show ?thesis
    by (cases outcome) (auto simp: loadGraphData_settle_def)
next
  case (NodeClick node)
  with assms show ?thesis
    by (cases "nvl_data node") (auto simp: onNodeClick_def)
next
  case (RelationshipClick rel)
  with assms show ?thesis
    by (auto simp: onRelationshipClick_def split: option.splits)
next
  case CloseProperties
  then show ?thesis by (simp add: closeProperties_def)
next
  case (ToggleFilter t)
  with assms show ?thesis by simp
next
  case ToggleAll
  with assms show ?thesis by simp
qed

lemma foldl_view_step_exclusive:
  "selectedNode s = None \<or> selectedRelationship s = None \<Longrightarrow>
   selectedNode (foldl view_step s es) = None \<or> selectedRelationship (foldl view_step s es) = None"
proof (induction es arbitrary: s)
  case Nil
  then show ?case by simp
next
  case (Cons e es)
  from Cons.prems have "selectedNode (view_step s e) = None \<or>
                        selectedRelationship (view_step s e) = None"
    by (rule view_step_exclusive)
  then show ?case using Cons.IH by simp
qed

lemma rendered_relationship_found:
  assumes "rel \<in> set (nvlRelationships (filteredRelationships (Some g) fn) sel)"
  shows "\<exists>full \<in> set (relationships g).
           find (\<lambda>r. rel_id r = nvlr_id rel) (relationships g) = Some full \<and>
           rel_id full = nvlr_id rel"
proof -
  from assms obtain r0 where r0: "r0 \<in> set (relationships g)" "rel_id r0 = nvlr_id rel"
    by (auto simp: nvlRelationships_def filteredRelationships_def)
  then have "find (\<lambda>r. rel_id r = nvlr_id rel) (relationships g) \<noteq> None"
    by (auto simp: find_None_iff)
  then obtain full where f: "find (\<lambda>r. rel_id r = nvlr_id rel) (relationships g) = Some full"
    by blast
  then have "full \<in> set (relationships g)" "rel_id full = nvlr_id rel"
    by (auto simp: find_Some_iff in_set_conv_nth)
  with f show ?thesis by blast
qed

text \<open>
  C9. In the memory graph view a node and a relationship are never selected together.
  Both selections start empty; after any sequence of loads, clicks, closings of the
  property panel and filter changes at most one of them is set; starting a load empties
  both, and so does a whole load; a click on a rendered node selects that node's data and
  deselects the relationship; a click on a rendered relationship selects the graph's
  relationship of that id and deselects the node; closing the property panel empties both.
\<close>

theorem selection_exclusive:
  "selectedNode initialView = None \<and> selectedRelationship initialView = None
 \<and> (selectedNode (view_run es) = None \<or> selectedRelationship (view_run es) = None)
 \<and> selectedNode (loadGraphData_begin s) = None
 \<and> selectedRelationship (loadGraphData_begin s) = None
 \<and> selectedNode (loadGraphData api s) = None
 \<and> selectedRelationship (loadGraphData api s) = None
 \<and> (\<forall>node \<in> set (nvlNodes fn selN).
       \<exists>d \<in> set fn. nvl_data node = Some d
         \<and> selectedNode (onNodeClick node s) = Some d
         \<and> selectedRelationship (onNodeClick node s) = None)
 \<and> (\<forall>g. graphData s = Some g \<longrightarrow>
       (\<forall>rel \<in> set (nvlRelationships (filteredRelationships (Some g) fn) selR).
          \<exists>full \<in> set (relationships g). rel_id full = nvlr_id rel
            \<and> selectedRelationship (onRelationshipClick rel s) = Some full
            \<and> selectedNode (onRelationshipClick rel s) = None))
 \<and> selectedNode (closeProperties s) = None
 \<and> selectedRelationship (closeProperties s) = None"
proof -
  have init: "selectedNode initialView = None \<and> selectedRelationship initialView = None"
    by (simp add: initialView_def)
  have run: "selectedNode (view_run es) = None \<or> selectedRelationship (view_run es) = None"
    unfolding view_run_def by (rule foldl_view_step_exclusive) (simp add: init)
  have start: "selectedNode (loadGraphData_begin s) = None \<and>
               selectedRelationship (loadGraphData_begin s) = None"
    by (simp add: loadGraphData_begin_def)
  have settle: "selectedNode (loadGraphData_settle outcome t) = selectedNode t \<and>
                selectedRelationship (loadGraphData_settle outcome t) = selectedRelationship t"
    for outcome t
    by (cases outcome) (simp_all add: loadGraphData_settle_def)
  have load: "selectedNode (loadGraphData api s) = None \<and>
              selectedRelationship (loadGraphData api s) = None"
    by (simp add: loadGraphData_def settle start)
  have node: "\<forall>node \<in> set (nvlNodes fn selN).
       \<exists>d \<in> set fn. nvl_data node = Some d
         \<and> selectedNode (onNodeClick node s) = Some d
         \<and> selectedRelationship (onNodeClick node s) = None"
  proof
    fix node assume "node \<in> set (nvlNodes fn selN)"
    then obtain d where "d \<in> set fn" "nvl_data node = Some d"
      using nvlNodes_data by blast
    then show "\<exists>d \<in> set fn. nvl_data node = Some d
         \<and> selectedNode (onNodeClick node s) = Some d
         \<and> selectedRelationship (onNodeClick node s) = None"
      by (auto simp: onNodeClick_def)
  qed
  have rel: "\<forall>g. graphData s = Some g \<longrightarrow>
       (\<forall>rel \<in> set (nvlRelationships (filteredRelationships (Some g) fn) selR).
          \<exists>full \<in> set (relationships g). rel_id full = nvlr_id rel
            \<and> selectedRelationship (onRelationshipClick rel s) = Some full
            \<and> selectedNode (onRelationshipClick rel s) = None)"
  proof (intro allI impI ballI)
    fix g rel
    assume g: "graphData s = Some g"
       and "rel \<in> set (nvlRelationships (filteredRelationships (Some g) fn) selR)"
    then obtain full where "full \<in> set (relationships g)"
        "find (\<lambda>r. rel_id r = nvlr_id rel) (relationships g) = Some full"
        "rel_id full = nvlr_id rel"
      using rendered_relationship_found by blast
    with g show "\<exists>full \<in> set (relationships g). rel_id full = nvlr_id rel
            \<and> selectedRelationship (onRelationshipClick rel s) = Some full
            \<and> selectedNode (onRelationshipClick rel s) = None"
      by (auto simp: onRelationshipClick_def)
  qed
  have closing: "selectedNode (closeProperties s) = None \<and>
               selectedRelationship (closeProperties s) = None"
    by (simp add: closeProperties_def)
  from init run start load node rel closing show ?thesis
    by (intro conjI) (erule conjunct1 conjunct2 | assumption)+
qed

theorem selection_exclusive_witness:
  "graphData sample_loaded = Some sample_graph
 \<and> sample_node \<in> set (nvlNodes (filteredNodes (Some sample_graph) sample_filters) None)
 \<and> selectedNode (onNodeClick sample_node sample_loaded) = nvl_data sample_node
 \<and> selectedRelationship (onNodeClick sample_node sample_loaded) = None
 \<and> sample_rel \<in> set (nvlRelationships
                       (filteredRelationships (Some sample_graph)
                          (filteredNodes (Some sample_graph) sample_filters)) None)
 \<and> (\<exists>full \<in> set (relationships sample_graph). rel_id full = ''r3''
       \<and> selectedRelationship (onRelationshipClick sample_rel sample_loaded) = Some full
       \<and> selectedNode (onRelationshipClick sample_rel sample_loaded) = None)
 \<and> selectedRelationship (view_run sample_clicks) \<noteq> None
 \<and> selectedNode (view_run sample_clicks) = None"
proof -
  let ?fn = "filteredNodes (Some sample_graph) sample_filters"
  note all = selection_exclusive
    [where s = sample_loaded and fn = ?fn and selR = None and selN = None
       and es = sample_clicks and api = "\<lambda>_. Inr \<lparr>status = 200, data = sample_graph\<rparr>"]
  have g: "graphData sample_loaded = Some sample_graph"
    by (simp add: sample_loaded_def view_run_def loadGraphData_begin_def
          loadGraphData_settle_def initialView_def sample_graph_def)
  have fn: "map node_id ?fn = [''n1'', ''n2'', ''n4'']"
    by (simp add: filteredNodes_def sample_graph_def sample_filters_def
          getNodeMemoryType_def getNodeLabel_def)
  have n: "sample_node \<in> set (nvlNodes ?fn None)"
    by (simp add: filteredNodes_def sample_graph_def sample_filters_def
          getNodeMemoryType_def getNodeLabel_def nvlNodes_def sample_node_def baseSize_def)
  from all have "\<forall>node \<in> set (nvlNodes ?fn None).
       \<exists>d \<in> set ?fn. nvl_data node = Some d
         \<and> selectedNode (onNodeClick node sample_loaded) = Some d
         \<and> selectedRelationship (onNodeClick node sample_loaded) = None"
    by (elim conjE)
  with n have nclick: "selectedNode (onNodeClick sample_node sample_loaded) = nvl_data sample_node"
      "selectedRelationship (onNodeClick sample_node sample_loaded) = None"
    by fastforce+
  have m: "sample_rel \<in> set (nvlRelationships (filteredRelationships (Some sample_graph) ?fn) None)"
    unfolding filteredRelationships_def option.case Let_def set_map [symmetric] fn
    by (simp add: sample_graph_def nvlRelationships_def sample_rel_def)
  from all have "\<forall>g. graphData sample_loaded = Some g \<longrightarrow>
       (\<forall>rel \<in> set (nvlRelationships (filteredRelationships (Some g) ?fn) None).
          \<exists>full \<in> set (relationships g). rel_id full = nvlr_id rel
            \<and> selectedRelationship (onRelationshipClick rel sample_loaded) = Some full
            \<and> selectedNode (onRelationshipClick rel sample_loaded) = None)"
    by (elim conjE)
  with g m have "\<exists>full \<in> set (relationships sample_graph). rel_id full = nvlr_id sample_rel
            \<and> selectedRelationship (onRelationshipClick sample_rel sample_loaded) = Some full
            \<and> selectedNode (onRelationshipClick sample_rel sample_loaded) = None"
    by blast
  then have click: "\<exists>full \<in> set (relationships sample_graph). rel_id full = ''r3''
       \<and> selectedRelationship (onRelationshipClick sample_rel sample_loaded) = Some full
       \<and> selectedNode (onRelationshipClick sample_rel sample_loaded) = None"
    by (simp add: sample_rel_def)
  have sel: "selectedRelationship (view_run sample_clicks) \<noteq> None"
    by (simp add: sample_clicks_def view_run_def loadGraphData_begin_def
          loadGraphData_settle_def initialView_def sample_graph_def onNodeClick_def
          onRelationshipClick_def sample_node_def sample_rel_def)
  from all have "selectedNode (view_run sample_clicks) = None \<or>
                 selectedRelationship (view_run sample_clicks) = None"
    by (elim conjE)
  with sel have none: "selectedNode (view_run sample_clicks) = None"
    by auto
  show ?thesis
    by (intro conjI g n nclick m click sel none)
qed

section \<open>Properties of the memory repository\<close>

subsection \<open>Chains\<close>

lemma walk_linked: "linked nxt (m # ms) \<Longrightarrow> walk nxt m = Some (m # ms)"
proof (induction ms arbitrary: m)
  case Nil
  then show ?case by (subst walk.simps) simp
next
  case (Cons m' ms)
  then have "nxt m = Some m'" "walk nxt m' = Some (m' # ms)" by simp_all
  then show ?case by (subst walk.simps) simp
qed

lemma linked_upd_other: "linked nxt ms \<Longrightarrow> l \<notin> set ms \<Longrightarrow> linked (nxt(l \<mapsto> m)) ms"
  by (induction nxt ms rule: linked.induct) auto

lemma linked_snoc:
  "linked nxt (xs @ [l]) \<Longrightarrow> distinct (xs @ [l]) \<Longrightarrow> m \<notin> set (xs @ [l]) \<Longrightarrow> nxt m = None \<Longrightarrow>
   linked (nxt(l \<mapsto> m)) (xs @ [l, m])"
proof (induction xs)
  case Nil
  then show ?case by simp
next
  case (Cons x xs)
  show ?case
  proof (cases xs)
    case Nil
    with Cons.prems show ?thesis by simp
  next
    case (Cons y ys)
    with Cons.prems Cons.IH show ?thesis by simp
  qed
qed

lemma linked_unlink:
  "linked nxt ms \<Longrightarrow> \<forall>m \<in> set ms. \<not> gone m \<Longrightarrow> linked (unlink gone nxt) ms"
  by (induction nxt ms rule: linked.induct) (auto simp: unlink_def)

lemma repo_invI:
  assumes "\<And>t. first_message st t = (case created g t of [] \<Rightarrow> None | m # _ \<Rightarrow> Some m)"
      and "\<And>t. tail_message st t = (if created g t = [] then None else Some (last (created g t)))"
      and "\<And>t. linked (next_message st) (created g t)"
      and "\<And>t. distinct (created g t)"
      and "\<And>t m. m \<in> set (created g t) \<longleftrightarrow> message_of st t m"
      and "\<And>m. msgs st m \<noteq> None \<Longrightarrow> m < next_id st"
      and "\<And>m. next_message st m \<noteq> None \<Longrightarrow> msgs st m \<noteq> None"
      and "\<And>t. threads st t = None \<Longrightarrow> created g t = []"
      and "\<And>t. threads st t \<noteq> None \<Longrightarrow> t < next_id st"
  shows "repo_inv st g"
  unfolding repo_inv_def using assms by blast

lemma inv_first:
  "repo_inv st g \<Longrightarrow> first_message st t = (case created g t of [] \<Rightarrow> None | m # _ \<Rightarrow> Some m)"
  unfolding repo_inv_def by blast

lemma inv_tail:
  "repo_inv st g \<Longrightarrow>
   tail_message st t = (if created g t = [] then None else Some (last (created g t)))"
  unfolding repo_inv_def by blast

lemma inv_linked: "repo_inv st g \<Longrightarrow> linked (next_message st) (created g t)"
  unfolding repo_inv_def by blast

lemma inv_distinct: "repo_inv st g \<Longrightarrow> distinct (created g t)"
  unfolding repo_inv_def by blast

lemma inv_mem: "repo_inv st g \<Longrightarrow> m \<in> set (created g t) \<longleftrightarrow> message_of st t m"
  unfolding repo_inv_def by blast

lemma inv_msgs_lt: "repo_inv st g \<Longrightarrow> msgs st m \<noteq> None \<Longrightarrow> m < next_id st"
  unfolding repo_inv_def by blast

lemma inv_next_dom: "repo_inv st g \<Longrightarrow> next_message st m \<noteq> None \<Longrightarrow> msgs st m \<noteq> None"
  unfolding repo_inv_def by blast

lemma inv_nothread: "repo_inv st g \<Longrightarrow> threads st t = None \<Longrightarrow> created g t = []"
  unfolding repo_inv_def by blast

lemma inv_threads_lt: "repo_inv st g \<Longrightarrow> threads st t \<noteq> None \<Longrightarrow> t < next_id st"
  unfolding repo_inv_def by blast

lemma message_of_stored: "message_of st t m \<Longrightarrow> msgs st m \<noteq> None"
  by (auto simp: message_of_def split: option.splits)

lemma message_of_cong: "msgs st' = msgs st \<Longrightarrow> message_of st' = message_of st"
  by (simp add: message_of_def fun_eq_iff)

lemma repo_inv_frame:
  assumes inv: "repo_inv st g"
      and same: "msgs st' = msgs st" "first_message st' = first_message st"
                "next_message st' = next_message st" "tail_message st' = tail_message st"
      and thr: "\<And>t. threads st' t = None \<Longrightarrow> threads st t = None"
               "\<And>t. threads st' t \<noteq> None \<Longrightarrow> t < next_id st'"
      and le: "next_id st \<le> next_id st'"
  shows "repo_inv st' g"
proof (rule repo_invI)
  fix t m
  show "first_message st' t = (case created g t of [] \<Rightarrow> None | m # _ \<Rightarrow> Some m)"
    using inv_first [OF inv] same by simp
  show "tail_message st' t = (if created g t = [] then None else Some (last (created g t)))"
    using inv_tail [OF inv] same by simp
  show "linked (next_message st') (created g t)"
    using inv_linked [OF inv] same by simp
  show "distinct (created g t)"
    using inv_distinct [OF inv] .
  show "m \<in> set (created g t) \<longleftrightarrow> message_of st' t m"
    using inv_mem [OF inv] message_of_cong [OF same(1)] by simp
  show "m < next_id st'" if "msgs st' m \<noteq> None"
    using inv_msgs_lt [OF inv, of m] that same le by simp
  show "msgs st' m \<noteq> None" if "next_message st' m \<noteq> None"
    using inv_next_dom [OF inv, of m] that same by simp
  show "created g t = []" if "threads st' t = None"
    using inv_nothread [OF inv] thr(1) that by blast
  show "t < next_id st'" if "threads st' t \<noteq> None"
    using thr(2) that by blast
qed

lemma add_tool_calls_frame:
  "threads (add_tool_calls now sid cs st) = threads st
 \<and> msgs (add_tool_calls now sid cs st) = msgs st
 \<and> first_message (add_tool_calls now sid cs st) = first_message st
 \<and> next_message (add_tool_calls now sid cs st) = next_message st
 \<and> tail_message (add_tool_calls now sid cs st) = tail_message st
 \<and> preferences (add_tool_calls now sid cs st) = preferences st
 \<and> categories (add_tool_calls now sid cs st) = categories st
 \<and> next_id st \<le> next_id (add_tool_calls now sid cs st)"
proof (induction cs arbitrary: st)
  case Nil
  show ?case by simp
next
  case (Cons c cs)
  let ?st1 = "st\<lparr>next_id := Suc (next_id st),
           toolcalls := (toolcalls st)(next_id st \<mapsto>
             \<lparr>call_step = sid, call_timestamp = now, call_arguments = used_arguments c,
              call_output = used_output c, call_tool = used_tool c\<rparr>),
           tools := upsert_tool now (used_tool c) (used_description c) (tools st)\<rparr>"
  from Cons [of ?st1] show ?case by simp
qed

lemma add_steps_frame:
  "threads (add_steps now mid tid i prev xs st) = threads st
 \<and> msgs (add_steps now mid tid i prev xs st) = msgs st
 \<and> first_message (add_steps now mid tid i prev xs st) = first_message st
 \<and> next_message (add_steps now mid tid i prev xs st) = next_message st
 \<and> tail_message (add_steps now mid tid i prev xs st) = tail_message st
 \<and> preferences (add_steps now mid tid i prev xs st) = preferences st
 \<and> categories (add_steps now mid tid i prev xs st) = categories st
 \<and> next_id st \<le> next_id (add_steps now mid tid i prev xs st)"
proof (induction xs arbitrary: st i prev)
  case Nil
  show ?case by simp
next
  case (Cons x xs)
  let ?st1 = "st\<lparr>next_id := Suc (next_id st),
                   steps := (steps st)(next_id st \<mapsto>
                     \<lparr>step_no = i, step_text = in_reasoning_text x, step_message = mid,
                      step_thread = tid\<rparr>),
                   next_step := (case prev of None \<Rightarrow> next_step st
                                 | Some p \<Rightarrow> (next_step st)(p \<mapsto> next_id st))\<rparr>"
  let ?st2 = "add_tool_calls now (next_id st) (in_tool_calls x) ?st1"
  have step: "add_steps now mid tid i prev (x # xs) st =
              add_steps now mid tid (Suc i) (Some (next_id st)) xs ?st2"
    by (simp add: Let_def)
  from add_tool_calls_frame [of now "next_id st" "in_tool_calls x" ?st1]
  have two: "threads ?st2 = threads st" "msgs ?st2 = msgs st"
    "first_message ?st2 = first_message st" "next_message ?st2 = next_message st"
    "tail_message ?st2 = tail_message st" "preferences ?st2 = preferences st"
    "categories ?st2 = categories st" "next_id st \<le> next_id ?st2"
    by simp_all
  from Cons [of "Suc i" "Some (next_id st)" ?st2] two show ?case
    unfolding step by simp
qed

lemma append_message_result:
  assumes "append_message t who txt rs ctx now st = Inr (m, st')"
  shows "m = next_id st"
    and "threads st t \<noteq> None"
    and "next_id st' = Suc (next_id st)"
    and "msgs st' = (msgs st)(m \<mapsto>
           \<lparr>message_thread = t, message_text = txt, message_sender = who,
            message_timestamp = now, message_steps_json = rs, message_context_json = ctx\<rparr>)"
    and "first_message st' =
           (case tail_message st t of None \<Rightarrow> (first_message st)(t \<mapsto> m)
            | Some l \<Rightarrow> first_message st)"
    and "next_message st' =
           (case tail_message st t of None \<Rightarrow> next_message st
            | Some l \<Rightarrow> (next_message st)(l \<mapsto> m))"
    and "tail_message st' = (tail_message st)(t \<mapsto> m)"
    and "\<And>t'. threads st' t' = None \<longleftrightarrow> threads st t' = None"
    and "steps st' = steps st" and "next_step st' = next_step st"
    and "toolcalls st' = toolcalls st" and "tools st' = tools st"
    and "preferences st' = preferences st" and "categories st' = categories st"
  using assms
  by (auto simp: append_message_def Let_def split: option.splits if_splits)

lemma append_message_inv:
  assumes inv: "repo_inv st g"
      and ok: "append_message t who txt rs ctx now st = Inr (m, st')"
  shows "repo_inv st' (g\<lparr>created := (created g)(t := created g t @ [m])\<rparr>)"
proof -
  note r = append_message_result [OF ok]
  let ?c = "created g"
  have fresh_msg: "msgs st m = None"
  proof (rule ccontr)
    assume "msgs st m \<noteq> None"
    then have "m < next_id st" by (rule inv_msgs_lt [OF inv])
    with r(1) show False by simp
  qed
  have fresh_in: "m \<notin> set (?c t')" for t'
    using inv_mem [OF inv, of m t'] fresh_msg by (simp add: message_of_def)
  have fresh_next: "next_message st m = None"
  proof (rule ccontr)
    assume "next_message st m \<noteq> None"
    then have "msgs st m \<noteq> None" by (rule inv_next_dom [OF inv])
    with fresh_msg show False by simp
  qed
  have mo: "message_of st' t' k \<longleftrightarrow> (k = m \<and> t' = t) \<or> message_of st t' k" for t' k
    using fresh_msg by (auto simp: message_of_def r(4))
  have tl: "tail_message st t = (if ?c t = [] then None else Some (last (?c t)))"
    by (rule inv_tail [OF inv])
  have other: "last (?c t) \<notin> set (?c t')" if "?c t \<noteq> []" "t' \<noteq> t" for t'
  proof
    assume "last (?c t) \<in> set (?c t')"
    then have "message_of st t' (last (?c t))" using inv_mem [OF inv] by simp
    moreover from that have "last (?c t) \<in> set (?c t)" by simp
    then have "message_of st t (last (?c t))" using inv_mem [OF inv] by simp
    ultimately show False using that(2) by (auto simp: message_of_def split: option.splits)
  qed
  have cg: "created (g\<lparr>created := (created g)(t := created g t @ [m])\<rparr>) =
            (created g)(t := created g t @ [m])"
    by simp
  show ?thesis
  proof (rule repo_invI, unfold cg)
    fix t'
    show "first_message st' t' =
            (case (?c(t := ?c t @ [m])) t' of [] \<Rightarrow> None | x # _ \<Rightarrow> Some x)"
      using inv_first [OF inv, of t'] inv_first [OF inv, of t] tl
      by (cases "?c t") (auto simp: r(5))
  next
    fix t'
    show "tail_message st' t' =
            (if (?c(t := ?c t @ [m])) t' = [] then None
             else Some (last ((?c(t := ?c t @ [m])) t')))"
      using inv_tail [OF inv, of t'] by (simp add: r(7))
  next
    fix t'
    show "linked (next_message st') ((?c(t := ?c t @ [m])) t')"
    proof (cases "?c t = []")
      case True
      with tl have "next_message st' = next_message st" by (simp add: r(6))
      with True inv_linked [OF inv, of t'] fresh_next show ?thesis by simp
    next
      case False
      with tl have nm: "next_message st' = (next_message st)(last (?c t) \<mapsto> m)"
        by (simp add: r(6))
      show ?thesis
      proof (cases "t' = t")
        case True
        from False have split: "?c t = butlast (?c t) @ [last (?c t)]" by simp
        have "linked ((next_message st)(last (?c t) \<mapsto> m)) (butlast (?c t) @ [last (?c t), m])"
        proof (rule linked_snoc)
          show "linked (next_message st) (butlast (?c t) @ [last (?c t)])"
            using inv_linked [OF inv, of t] split by simp
          show "distinct (butlast (?c t) @ [last (?c t)])"
            using inv_distinct [OF inv, of t] split by simp
          show "m \<notin> set (butlast (?c t) @ [last (?c t)])"
            using fresh_in [of t] split by simp
          show "next_message st m = None" by (rule fresh_next)
        qed
        moreover have "butlast (?c t) @ [last (?c t), m] = ?c t @ [m]"
          using split by (metis append.assoc append_Cons append_Nil)
        ultimately show ?thesis using True nm by simp
      next
        case neq: False
        from other [OF False neq] inv_linked [OF inv, of t']
        have "linked ((next_message st)(last (?c t) \<mapsto> m)) (?c t')"
          by (rule linked_upd_other [rotated])
        with neq nm show ?thesis by simp
      qed
    qed
  next
    fix t'
    show "distinct ((?c(t := ?c t @ [m])) t')"
      using inv_distinct [OF inv] fresh_in by simp
  next
    fix t' k
    show "k \<in> set ((?c(t := ?c t @ [m])) t') \<longleftrightarrow> message_of st' t' k"
      using inv_mem [OF inv] by (auto simp: mo)
  next
    fix k
    assume "msgs st' k \<noteq> None"
    then show "k < next_id st'"
      using inv_msgs_lt [OF inv, of k] r(1) by (auto simp: r(3) r(4) split: if_splits)
  next
    fix k
    assume k: "next_message st' k \<noteq> None"
    show "msgs st' k \<noteq> None"
    proof (cases "?c t = []")
      case True
      with tl k have "next_message st k \<noteq> None" by (simp add: r(6))
      then show ?thesis using inv_next_dom [OF inv, of k] by (simp add: r(4))
    next
      case False
      then have "last (?c t) \<in> set (?c t)" by simp
      then have "msgs st (last (?c t)) \<noteq> None"
        using inv_mem [OF inv, of "last (?c t)" t] message_of_stored by blast
      with False tl k show ?thesis
        using inv_next_dom [OF inv, of k] by (auto simp: r(6) r(4) split: if_splits)
    qed
  next
    fix t'
    assume "threads st' t' = None"
    then have "threads st t' = None" "t' \<noteq> t" using r(8) r(2) by auto
    then show "(?c(t := ?c t @ [m])) t' = []"
      using inv_nothread [OF inv] by simp
  next
    fix t'
    assume "threads st' t' \<noteq> None"
    then have "threads st t' \<noteq> None" using r(8) by simp
    then show "t' < next_id st'"
      using inv_threads_lt [OF inv, of t'] by (simp add: r(3))
  qed
qed

lemma delete_thread_fields:
  "next_id (delete_thread t st) = next_id st"
  "threads (delete_thread t st) = (threads st)(t := None)"
  "first_message (delete_thread t st) = (first_message st)(t := None)"
  "tail_message (delete_thread t st) = (tail_message st)(t := None)"
  "msgs (delete_thread t st) = without (message_of st t) (msgs st)"
  "next_message (delete_thread t st) = unlink (message_of st t) (next_message st)"
  "steps (delete_thread t st) = without (step_of st t) (steps st)"
  "next_step (delete_thread t st) = unlink (step_of st t) (next_step st)"
  "toolcalls (delete_thread t st) = without (toolcall_of st t) (toolcalls st)"
  "tools (delete_thread t st) = tools st"
  "preferences (delete_thread t st) = preferences st"
  "categories (delete_thread t st) = categories st"
  by (simp_all add: delete_thread_def)

lemma message_of_delete:
  "message_of (delete_thread t st) t' k \<longleftrightarrow> t' \<noteq> t \<and> message_of st t' k"
  by (auto simp: message_of_def delete_thread_fields without_def split: option.splits)

lemma delete_thread_inv:
  assumes inv: "repo_inv st g"
  shows "repo_inv (delete_thread t st) (g\<lparr>created := (created g)(t := [])\<rparr>)"
proof -
  let ?c = "created g"
  let ?st' = "delete_thread t st"
  have cg: "created (g\<lparr>created := (created g)(t := [])\<rparr>) = (created g)(t := [])"
    by simp
  have kept: "\<not> message_of st t k" if "k \<in> set (?c t')" "t' \<noteq> t" for k t'
  proof
    assume "message_of st t k"
    moreover from that have "message_of st t' k" using inv_mem [OF inv] by simp
    ultimately show False using that(2) by (auto simp: message_of_def split: option.splits)
  qed
  show ?thesis
  proof (rule repo_invI, unfold cg)
    fix t'
    show "first_message ?st' t' = (case (?c(t := [])) t' of [] \<Rightarrow> None | x # _ \<Rightarrow> Some x)"
      using inv_first [OF inv, of t'] by (simp add: delete_thread_fields)
  next
    fix t'
    show "tail_message ?st' t' =
            (if (?c(t := [])) t' = [] then None else Some (last ((?c(t := [])) t')))"
      using inv_tail [OF inv, of t'] by (simp add: delete_thread_fields)
  next
    fix t'
    show "linked (next_message ?st') ((?c(t := [])) t')"
    proof (cases "t' = t")
      case True
      then show ?thesis by simp
    next
      case False
      have "linked (unlink (message_of st t) (next_message st)) (?c t')"
        using inv_linked [OF inv, of t'] kept [OF _ False] by (intro linked_unlink) auto
      with False show ?thesis by (simp add: delete_thread_fields)
    qed
  next
    fix t'
    show "distinct ((?c(t := [])) t')"
      using inv_distinct [OF inv] by simp
  next
    fix t' k
    show "k \<in> set ((?c(t := [])) t') \<longleftrightarrow> message_of ?st' t' k"
      using inv_mem [OF inv] by (simp add: message_of_delete)
  next
    fix k
    assume "msgs ?st' k \<noteq> None"
    then have "msgs st k \<noteq> None"
      by (auto simp: delete_thread_fields without_def split: if_splits)
    then show "k < next_id ?st'"
      using inv_msgs_lt [OF inv] by (simp add: delete_thread_fields)
  next
    fix k
    assume "next_message ?st' k \<noteq> None"
    then have "\<not> message_of st t k" "next_message st k \<noteq> None"
      by (auto simp: delete_thread_fields unlink_def split: if_splits option.splits)
    then show "msgs ?st' k \<noteq> None"
      using inv_next_dom [OF inv, of k] by (simp add: delete_thread_fields without_def)
  next
    fix t'
    assume "threads ?st' t' = None"
    then show "(?c(t := [])) t' = []"
      using inv_nothread [OF inv, of t'] by (auto simp: delete_thread_fields split: if_splits)
  next
    fix t'
    assume "threads ?st' t' \<noteq> None"
    then show "t' < next_id ?st'"
      using inv_threads_lt [OF inv, of t'] by (auto simp: delete_thread_fields split: if_splits)
  qed
qed

lemma create_thread_inv:
  assumes inv: "repo_inv st g"
  shows "repo_inv (snd (create_thread title now st)) g"
proof (rule repo_inv_frame [OF inv])
  let ?st' = "snd (create_thread title now st)"
  show "msgs ?st' = msgs st" "first_message ?st' = first_message st"
       "next_message ?st' = next_message st" "tail_message ?st' = tail_message st"
       "next_id st \<le> next_id ?st'"
    by (simp_all add: create_thread_def Let_def)
  show "threads st t = None" if "threads ?st' t = None" for t
    using that by (auto simp: create_thread_def Let_def split: if_splits)
  show "t < next_id ?st'" if "threads ?st' t \<noteq> None" for t
    using that inv_threads_lt [OF inv, of t]
    by (auto simp: create_thread_def Let_def split: if_splits)
qed

lemma append_reasoning_steps_inv:
  assumes inv: "repo_inv st g" and ok: "append_reasoning_steps mid xs now st = Inr st'"
  shows "repo_inv st' g"
proof -
  from ok obtain tid where
    st': "st' = add_steps now mid tid (Suc 0) None xs st"
    by (auto simp: append_reasoning_steps_def split: option.splits)
  note f = add_steps_frame [of now mid tid "Suc 0" None xs st, folded st']
  show ?thesis
  proof (rule repo_inv_frame [OF inv])
    show "msgs st' = msgs st" "first_message st' = first_message st"
       "next_message st' = next_message st" "tail_message st' = tail_message st"
       "next_id st \<le> next_id st'"
      using f by simp_all
    show "threads st t = None" if "threads st' t = None" for t
      using that f by simp
    show "t < next_id st'" if "threads st' t \<noteq> None" for t
    proof -
      from that f have "threads st t \<noteq> None" by simp
      then have "t < next_id st" by (rule inv_threads_lt [OF inv])
      with f show ?thesis by simp
    qed
  qed
qed

lemma preference_ops_inv:
  assumes inv: "repo_inv st g"
  shows "repo_inv (merge_preference dup c now st) g"
    and "repo_inv (delete_preference k st) g"
    and "repo_inv (clear_preferences st) g"
proof -
  have frame: "repo_inv st' g"
    if "msgs st' = msgs st" "first_message st' = first_message st"
       "next_message st' = next_message st" "tail_message st' = tail_message st"
       "threads st' = threads st" "next_id st \<le> next_id st'" for st'
  proof (rule repo_inv_frame [OF inv])
    show "threads st t = None" if "threads st' t = None" for t
      using that \<open>threads st' = threads st\<close> by simp
    show "t < next_id st'" if "threads st' t \<noteq> None" for t
    proof -
      from that \<open>threads st' = threads st\<close> have "threads st t \<noteq> None" by simp
      then have "t < next_id st" by (rule inv_threads_lt [OF inv])
      with \<open>next_id st \<le> next_id st'\<close> show ?thesis by simp
    qed
  qed (use that in simp_all)
  show "repo_inv (merge_preference dup c now st) g"
    by (rule frame) (simp_all add: merge_preference_def split: option.splits)
  show "repo_inv (delete_preference k st) g"
    by (rule frame) (simp_all add: delete_preference_def)
  show "repo_inv (clear_preferences st) g"
    by (rule frame) (simp_all add: clear_preferences_def)
qed

lemma repo_step_inv:
  assumes "repo_inv st g"
  shows "repo_inv (exec dup st x) (observe st x g)"
proof (cases x)
  case (CreateThread title now)
  with assms show ?thesis by (simp add: create_thread_inv)
next
  case (AppendMessage t who body rs ctx now)
  show ?thesis
  proof (cases "append_message t who body rs ctx now st")
    case (Inl e)
    with AppendMessage assms show ?thesis by simp
  next
    case (Inr r)
    obtain m st' where "r = (m, st')" by (cases r)
    with Inr AppendMessage append_message_inv [OF assms, of t who body rs ctx now m st']
    show ?thesis by simp
  qed
next
  case (AppendReasoningSteps mid xs now)
  show ?thesis
  proof (cases "append_reasoning_steps mid xs now st")
    case (Inl e)
    with AppendReasoningSteps assms show ?thesis by simp
  next
    case (Inr st')
    from append_reasoning_steps_inv [OF assms Inr]
    have "repo_inv st' (g\<lparr>invoked := (\<lambda>n. invoked g n + count_list (names_used xs) n)\<rparr>)"
      by (simp add: repo_inv_def)
    with Inr AppendReasoningSteps show ?thesis by simp
  qed
next
  case (DeleteThread t)
  with assms show ?thesis by (simp add: delete_thread_inv)
next
  case (MergePreference c now)
  with assms show ?thesis by (simp add: preference_ops_inv)
next
  case (DeletePreference k)
  with assms show ?thesis by (simp add: preference_ops_inv)
next
  case ClearPreferences
  with assms show ?thesis by (simp add: preference_ops_inv)
qed

lemma foldl_repo_step_inv:
  "repo_inv (fst sg) (snd sg) \<Longrightarrow>
   repo_inv (fst (foldl (repo_step dup) sg xs)) (snd (foldl (repo_step dup) sg xs))"
proof (induction xs arbitrary: sg)
  case Nil
  then show ?case by simp
next
  case (Cons x xs)
  have "repo_inv (fst (repo_step dup sg x)) (snd (repo_step dup sg x))"
    using Cons.prems by (simp add: repo_step_def repo_step_inv)
  then show ?case using Cons.IH by simp
qed

lemma repo_run_inv: "repo_inv (fst (repo_run dup xs)) (snd (repo_run dup xs))"
  unfolding repo_run_def
  by (rule foldl_repo_step_inv) (simp add: repo_inv_def empty_store_def message_of_def)

text \<open>
  C1. In every store that a run of repository operations produces, reading a thread's
  chain (its \<^verbatim>\<open>FIRST_MESSAGE\<close>, then \<^verbatim>\<open>NEXT_MESSAGE\<close> until there is none) ends and
  returns the messages created for that thread, each once, in the order of their
  creation, and they are exactly the stored messages of the thread. The result is the
  same in any store with the same two kinds of edges at that thread, whatever its
  timestamps and other properties are; the timestamps given to the operations are
  arbitrary.
\<close>

theorem thread_chain_is_creation_order:
  fixes dup :: "string \<Rightarrow> string \<Rightarrow> bool" and xs :: "op list"
  defines "st \<equiv> fst (repo_run dup xs)" and "g \<equiv> snd (repo_run dup xs)"
  assumes "threads st t = Some th"
  shows "get_thread st t = Some (Inr (th, created g t))
       \<and> distinct (created g t)
       \<and> set (created g t) = {m. message_of st t m}
       \<and> (\<forall>st' th'. threads st' t = Some th' \<and> first_message st' t = first_message st t
                      \<and> next_message st' = next_message st
             \<longrightarrow> get_thread st' t = Some (Inr (th', created g t)))"
proof -
  have inv: "repo_inv st g"
    unfolding st_def g_def by (rule repo_run_inv)
  have walk: "get_thread st' t = Some (Inr (th', created g t))"
    if "threads st' t = Some th'" "first_message st' t = first_message st t"
       "next_message st' = next_message st" for st' th'
  proof (cases "created g t")
    case Nil
    with inv_first [OF inv, of t] that show ?thesis
      by (simp add: get_thread_def)
  next
    case (Cons m ms)
    with inv_linked [OF inv, of t] have "walk (next_message st) m = Some (m # ms)"
      by (simp add: walk_linked)
    with Cons inv_first [OF inv, of t] that show ?thesis
      by (simp add: get_thread_def)
  qed
  have "get_thread st t = Some (Inr (th, created g t))"
    using assms(3) by (intro walk) simp_all
  moreover have "distinct (created g t)"
    by (rule inv_distinct [OF inv])
  moreover have "set (created g t) = {m. message_of st t m}"
    using inv_mem [OF inv] by auto
  ultimately show ?thesis
    using walk by blast
qed

theorem thread_chain_is_creation_order_witness:
  fixes st0 :: store and th0 :: thread_node
  defines "st0 \<equiv> fst (repo_run same_text sample_ops)"
      and "th0 \<equiv> \<lparr>thread_title = None, thread_created_at = 10, thread_updated_at = 3,
                   thread_last_message_at = Some 3\<rparr>"
  shows "threads st0 0 = Some th0
       \<and> get_thread st0 0 = Some (Inr (th0, [2, 4, 5]))
       \<and> map (\<lambda>m. map_option message_timestamp (msgs st0 m)) [2, 4, 5] =
           [Some 7, Some 7, Some 3]
       \<and> get_thread (st0\<lparr>msgs := Map.empty, steps := Map.empty\<rparr>) 0 =
           Some (Inr (th0, [2, 4, 5]))"
proof -
  note ev = st0_def th0_def repo_run_def sample_ops_def repo_step_def empty_store_def
    create_thread_def append_message_def append_reasoning_steps_def Let_def
  have th: "threads st0 0 = Some th0"
    by (simp add: ev)
  have cr: "created (snd (repo_run same_text sample_ops)) 0 = [2, 4, 5]"
    by (simp add: ev)
  have ts: "map (\<lambda>m. map_option message_timestamp (msgs st0 m)) [2, 4, 5] =
              [Some 7, Some 7, Some 3]"
    by (simp add: ev)
  note chain = thread_chain_is_creation_order [OF th [unfolded st0_def], folded st0_def, unfolded cr]
  from chain have a: "get_thread st0 0 = Some (Inr (th0, [2, 4, 5]))"
    by (elim conjE)
  from chain have "\<forall>st' th'. threads st' 0 = Some th' \<and> first_message st' 0 = first_message st0 0
                      \<and> next_message st' = next_message st0
             \<longrightarrow> get_thread st' 0 = Some (Inr (th', [2, 4, 5]))"
    by (elim conjE)
  then have b: "get_thread (st0\<lparr>msgs := Map.empty, steps := Map.empty\<rparr>) 0 =
                  Some (Inr (th0, [2, 4, 5]))"
    using th by simp
  from th a ts b show ?thesis by (intro conjI)
qed

subsection \<open>Tools\<close>

lemma upsert_tool_new:
  "n \<notin> name ` set ts \<Longrightarrow>
   upsert_tool now n d ts =
     ts @ [\<lparr>name = n, description = d, created_at = now, last_used_at = now, usage_count = 1\<rparr>]"
  by (induction ts) auto

lemma upsert_tool_known:
  "n \<in> name ` set ts \<Longrightarrow> distinct (map name ts) \<Longrightarrow>
   upsert_tool now n d ts =
     map (\<lambda>t. if name t = n then t\<lparr>usage_count := usage_count t + 1, last_used_at := now\<rparr>
               else t) ts"
proof (induction ts)
  case Nil
  then show ?case by simp
next
  case (Cons t ts)
  show ?case
  proof (cases "name t = n")
    case True
    with Cons.prems have "n \<notin> name ` set ts" by auto
    then have "map (\<lambda>t. if name t = n
                         then t\<lparr>usage_count := usage_count t + 1, last_used_at := now\<rparr>
                         else t) ts = ts"
      by (intro map_idI) auto
    with True show ?thesis by simp
  next
    case False
    with Cons show ?thesis by auto
  qed
qed

lemma upsert_tool_inv:
  assumes "tools_inv ts u"
  shows "tools_inv (upsert_tool now n d ts) (u(n := u n + 1))"
proof (cases "n \<in> name ` set ts")
  case False
  with assms show ?thesis
    by (auto simp: upsert_tool_new tools_inv_def)
next
  case True
  let ?f = "\<lambda>t. if name t = n
                 then t\<lparr>usage_count := usage_count t + 1, last_used_at := now\<rparr> else t"
  from assms have d: "distinct (map name ts)"
    and us: "\<And>t. t \<in> set ts \<Longrightarrow> usage_count t = u (name t)"
    and no: "\<And>k. k \<notin> name ` set ts \<Longrightarrow> u k = 0"
    by (simp_all add: tools_inv_def)
  have names: "map name (map ?f ts) = map name ts"
    by (induction ts) auto
  then have img: "name ` set (map ?f ts) = name ` set ts"
    by (metis set_map)
  have "distinct (map name (map ?f ts))"
    using d by (simp only: names)
  moreover have "\<forall>t \<in> set (map ?f ts). usage_count t = (u(n := u n + 1)) (name t)"
    using us by auto
  moreover have "\<forall>k. k \<notin> name ` set (map ?f ts) \<longrightarrow> (u(n := u n + 1)) k = 0"
    unfolding img using no True by auto
  moreover have "\<forall>t \<in> set (map ?f ts). 0 < usage_count t"
    using assms by (auto simp: tools_inv_def)
  ultimately show ?thesis
    unfolding upsert_tool_known [OF True d] tools_inv_def by (intro conjI)
qed

lemma tools_add_tool_calls:
  "tools (add_tool_calls now sid cs st) =
     fold (\<lambda>c. upsert_tool now (used_tool c) (used_description c)) cs (tools st)"
  by (induction cs arbitrary: st) simp_all

lemma tools_add_steps:
  "tools (add_steps now mid tid i prev xs st) =
     fold (\<lambda>c. upsert_tool now (used_tool c) (used_description c))
       (concat (map in_tool_calls xs)) (tools st)"
  by (induction xs arbitrary: st i prev) (simp_all add: Let_def tools_add_tool_calls)

lemma fold_upsert_inv:
  "tools_inv ts u \<Longrightarrow>
   tools_inv (fold (\<lambda>c. upsert_tool now (used_tool c) (used_description c)) cs ts)
     (\<lambda>n. u n + count_list (map used_tool cs) n)"
proof (induction cs arbitrary: ts u)
  case Nil
  then show ?case by simp
next
  case (Cons c cs)
  let ?u = "u(used_tool c := u (used_tool c) + 1)"
  from Cons.prems have "tools_inv (upsert_tool now (used_tool c) (used_description c) ts) ?u"
    by (rule upsert_tool_inv)
  then have "tools_inv (fold (\<lambda>c. upsert_tool now (used_tool c) (used_description c)) cs
                 (upsert_tool now (used_tool c) (used_description c) ts))
               (\<lambda>n. ?u n + count_list (map used_tool cs) n)"
    by (rule Cons.IH)
  moreover have "(\<lambda>n. ?u n + count_list (map used_tool cs) n) =
                 (\<lambda>n. u n + count_list (map used_tool (c # cs)) n)"
    by (auto simp: fun_eq_iff)
  ultimately show ?case by simp
qed

lemma tools_step_inv:
  assumes "tools_inv (tools st) (invoked g)"
  shows "tools_inv (tools (exec dup st x)) (invoked (observe st x g))"
proof (cases x)
  case (CreateThread title now)
  with assms show ?thesis by (simp add: create_thread_def Let_def)
next
  case (AppendMessage t who body rs ctx now)
  show ?thesis
  proof (cases "append_message t who body rs ctx now st")
    case (Inl e)
    with AppendMessage assms show ?thesis by simp
  next
    case (Inr r)
    obtain m st' where r: "r = (m, st')" by (cases r)
    with Inr have "tools st' = tools st" by (simp add: append_message_result)
    with r Inr AppendMessage assms show ?thesis by simp
  qed
next
  case (AppendReasoningSteps mid xs now)
  show ?thesis
  proof (cases "append_reasoning_steps mid xs now st")
    case (Inl e)
    with AppendReasoningSteps assms show ?thesis by simp
  next
    case (Inr st')
    then obtain tid where st': "st' = add_steps now mid tid (Suc 0) None xs st"
      by (auto simp: append_reasoning_steps_def split: option.splits)
    from fold_upsert_inv [OF assms, of now "concat (map in_tool_calls xs)"]
    have "tools_inv (tools st') (\<lambda>n. invoked g n + count_list (names_used xs) n)"
      by (simp add: st' tools_add_steps names_used_def)
    with Inr AppendReasoningSteps show ?thesis by simp
  qed
next
  case (DeleteThread t)
  with assms show ?thesis by (simp add: delete_thread_fields)
next
  case (MergePreference c now)
  with assms show ?thesis by (simp add: merge_preference_def split: option.splits)
next
  case (DeletePreference k)
  with assms show ?thesis by (simp add: delete_preference_def)
next
  case ClearPreferences
  with assms show ?thesis by (simp add: clear_preferences_def)
qed

lemma foldl_tools_inv:
  "tools_inv (tools (fst sg)) (invoked (snd sg)) \<Longrightarrow>
   tools_inv (tools (fst (foldl (repo_step dup) sg xs)))
     (invoked (snd (foldl (repo_step dup) sg xs)))"
proof (induction xs arbitrary: sg)
  case Nil
  then show ?case by simp
next
  case (Cons x xs)
  have "tools_inv (tools (fst (repo_step dup sg x))) (invoked (snd (repo_step dup sg x)))"
    using Cons.prems by (simp add: repo_step_def tools_step_inv)
  then show ?case using Cons.IH by simp
qed

lemma repo_run_tools_inv:
  "tools_inv (tools (fst (repo_run dup xs))) (invoked (snd (repo_run dup xs)))"
  unfolding repo_run_def
  by (rule foldl_tools_inv) (simp add: tools_inv_def empty_store_def)

lemma count_distinct_names:
  "distinct (map name ts) \<Longrightarrow>
   length (filter (\<lambda>t. name t = n) ts) = (if n \<in> name ` set ts then 1 else 0)"
  by (induction ts) auto

lemma tools_inv_count:
  assumes "tools_inv ts u"
  shows "length (filter (\<lambda>t. name t = n) ts) = (if u n = 0 then 0 else 1)"
proof -
  from assms have d: "distinct (map name ts)" by (simp add: tools_inv_def)
  show ?thesis
  proof (cases "n \<in> name ` set ts")
    case True
    with assms have "u n \<noteq> 0"
      by (fastforce simp: tools_inv_def)
    with True show ?thesis by (simp add: count_distinct_names [OF d])
  next
    case False
    with assms have "u n = 0" by (simp add: tools_inv_def)
    with False show ?thesis by (simp add: count_distinct_names [OF d])
  qed
qed

text \<open>
  C2. After any run, and for every tool name, the number of Tool nodes with that name
  is one if tool calls were recorded under the name and zero otherwise, and the
  \<open>usage_count\<close> of the node is the number N of those tool calls, over all turns of the
  run (a call whose thread was deleted afterwards still counts: the cascade does not
  touch Tool nodes). A reference to a name without node appends a node with
  \<open>usage_count = 1\<close>; a reference to a name with a node increments that node's
  \<open>usage_count\<close> and sets its \<open>last_used_at\<close>, and leaves every other node and the
  number of nodes as they are.
\<close>

theorem tool_upsert_counts:
  fixes dup :: "string \<Rightarrow> string \<Rightarrow> bool" and xs :: "op list"
  defines "st \<equiv> fst (repo_run dup xs)" and "g \<equiv> snd (repo_run dup xs)"
  shows "length (filter (\<lambda>t. name t = n) (tools st)) = (if invoked g n = 0 then 0 else 1)
       \<and> (\<forall>t \<in> set (tools st). name t = n \<longrightarrow> usage_count t = invoked g n)
       \<and> (n \<notin> name ` set (tools st) \<longrightarrow>
            upsert_tool now n d (tools st) =
              tools st @ [\<lparr>name = n, description = d, created_at = now, last_used_at = now,
                           usage_count = 1\<rparr>])
       \<and> (n \<in> name ` set (tools st) \<longrightarrow>
            upsert_tool now n d (tools st) =
              map (\<lambda>t. if name t = n
                        then t\<lparr>usage_count := usage_count t + 1, last_used_at := now\<rparr>
                        else t) (tools st))"
proof -
  have inv: "tools_inv (tools st) (invoked g)"
    unfolding st_def g_def by (rule repo_run_tools_inv)
  then have d: "distinct (map name (tools st))"
    by (simp add: tools_inv_def)
  have "length (filter (\<lambda>t. name t = n) (tools st)) = (if invoked g n = 0 then 0 else 1)"
    by (rule tools_inv_count [OF inv])
  moreover have "\<forall>t \<in> set (tools st). name t = n \<longrightarrow> usage_count t = invoked g n"
    using inv by (auto simp: tools_inv_def)
  moreover have "n \<notin> name ` set (tools st) \<longrightarrow>
            upsert_tool now n d (tools st) =
              tools st @ [\<lparr>name = n, description = d, created_at = now, last_used_at = now,
                           usage_count = 1\<rparr>]"
    by (simp add: upsert_tool_new)
  moreover have "n \<in> name ` set (tools st) \<longrightarrow>
            upsert_tool now n d (tools st) =
              map (\<lambda>t. if name t = n
                        then t\<lparr>usage_count := usage_count t + 1, last_used_at := now\<rparr>
                        else t) (tools st)"
    using upsert_tool_known [OF _ d] by blast
  ultimately show ?thesis by (intro conjI)
qed

theorem tool_upsert_counts_witness:
  fixes st0 :: store
  defines "st0 \<equiv> fst (repo_run same_text sample_ops)"
  shows "invoked (snd (repo_run same_text sample_ops)) ''search_news'' = 3
       \<and> length (filter (\<lambda>t. name t = ''search_news'') (tools st0)) = 1
       \<and> map (\<lambda>t. (name t, usage_count t, created_at t, last_used_at t)) (tools st0) =
           [(''search_news'', 3, 20, 30), (''search_by_location'', 1, 20, 20)]
       \<and> ''search_news'' \<in> name ` set (tools st0)
       \<and> map (\<lambda>t. (name t, usage_count t, created_at t, last_used_at t))
            (upsert_tool 40 ''search_news'' ''again'' (tools st0)) =
           [(''search_news'', 4, 20, 40), (''search_by_location'', 1, 20, 20)]"
proof -
  note ev = st0_def repo_run_def sample_ops_def repo_step_def empty_store_def create_thread_def
      append_message_def append_reasoning_steps_def Let_def names_used_def
      search_call_def geo_call_def
  have n: "invoked (snd (repo_run same_text sample_ops)) ''search_news'' = 3"
    by (simp add: ev)
  have ts: "map (\<lambda>t. (name t, usage_count t, created_at t, last_used_at t)) (tools st0) =
     [(''search_news'', 3, 20, 30), (''search_by_location'', 1, 20, 20)]"
    by (simp add: ev)
  have known: "''search_news'' \<in> name ` set (tools st0)"
    by (simp add: ev)
  note counts = tool_upsert_counts [where dup = same_text and xs = sample_ops
      and n = "''search_news''" and now = 40 and d = "''again''", folded st0_def]
  from counts have "length (filter (\<lambda>t. name t = ''search_news'') (tools st0)) =
        (if invoked (snd (repo_run same_text sample_ops)) ''search_news'' = 0 then 0 else 1)"
    by (elim conjE)
  with n have one: "length (filter (\<lambda>t. name t = ''search_news'') (tools st0)) = 1"
    by simp
  from counts have "''search_news'' \<in> name ` set (tools st0) \<longrightarrow>
            upsert_tool 40 ''search_news'' ''again'' (tools st0) =
              map (\<lambda>t. if name t = ''search_news''
                        then t\<lparr>usage_count := usage_count t + 1, last_used_at := 40\<rparr>
                        else t) (tools st0)"
    by (elim conjE)
  with known have "upsert_tool 40 ''search_news'' ''again'' (tools st0) =
              map (\<lambda>t. if name t = ''search_news''
                        then t\<lparr>usage_count := usage_count t + 1, last_used_at := 40\<rparr>
                        else t) (tools st0)"
    by simp
  then have again: "map (\<lambda>t. (name t, usage_count t, created_at t, last_used_at t))
            (upsert_tool 40 ''search_news'' ''again'' (tools st0)) =
           [(''search_news'', 4, 20, 40), (''search_by_location'', 1, 20, 20)]"
    by (simp add: ev)
  from n one ts known again show ?thesis by (intro conjI)
qed

subsection \<open>Deletion\<close>

lemma get_thread_inv:
  assumes inv: "repo_inv st g" and th: "threads st t = Some th"
  shows "get_thread st t = Some (Inr (th, created g t))"
proof (cases "created g t")
  case Nil
  with inv_first [OF inv, of t] th show ?thesis
    by (simp add: get_thread_def)
next
  case (Cons m ms)
  with inv_linked [OF inv, of t] have "walk (next_message st) m = Some (m # ms)"
    by (simp add: walk_linked)
  with Cons inv_first [OF inv, of t] th show ?thesis
    by (simp add: get_thread_def)
qed

lemma delete_thread_no_leftovers:
  "\<not> message_of (delete_thread t s) t m"
  "\<not> step_of (delete_thread t s) t k"
  "\<not> toolcall_of (delete_thread t s) t c"
  by (auto simp: message_of_def step_of_def toolcall_of_def delete_thread_fields without_def
      split: option.splits)

text \<open>
  C7. Deleting a thread removes the thread, every message of the thread, every
  reasoning step of the thread and every tool call of those steps, so that no node of
  the thread is left; it leaves the Tool nodes, the PreferenceCategory nodes and the
  preferences exactly as they were, and keeps every message, step and tool call that
  belongs to another thread. In a store produced by a run, every other thread still
  reads back the same messages in the same order after the deletion.
\<close>

theorem delete_thread_cascade:
  fixes dup :: "string \<Rightarrow> string \<Rightarrow> bool" and xs :: "op list" and s :: store
  defines "st \<equiv> fst (repo_run dup xs)"
  shows "threads (delete_thread t s) t = None
       \<and> (\<forall>m. message_of s t m \<longrightarrow> msgs (delete_thread t s) m = None)
       \<and> (\<forall>k. step_of s t k \<longrightarrow> steps (delete_thread t s) k = None)
       \<and> (\<forall>c. toolcall_of s t c \<longrightarrow> toolcalls (delete_thread t s) c = None)
       \<and> (\<forall>m k c. \<not> message_of (delete_thread t s) t m \<and> \<not> step_of (delete_thread t s) t k
                   \<and> \<not> toolcall_of (delete_thread t s) t c)
       \<and> tools (delete_thread t s) = tools s
       \<and> categories (delete_thread t s) = categories s
       \<and> preferences (delete_thread t s) = preferences s
       \<and> (\<forall>m. \<not> message_of s t m \<longrightarrow> msgs (delete_thread t s) m = msgs s m)
       \<and> (\<forall>k. \<not> step_of s t k \<longrightarrow> steps (delete_thread t s) k = steps s k)
       \<and> (\<forall>c. \<not> toolcall_of s t c \<longrightarrow> toolcalls (delete_thread t s) c = toolcalls s c)
       \<and> (\<forall>t'. t' \<noteq> t \<longrightarrow> threads (delete_thread t s) t' = threads s t')
       \<and> (\<forall>t'. t' \<noteq> t \<and> threads st t' \<noteq> None \<longrightarrow>
             get_thread (delete_thread t st) t' = get_thread st t')"
proof -
  have local: "threads (delete_thread t s) t = None
       \<and> (\<forall>m. message_of s t m \<longrightarrow> msgs (delete_thread t s) m = None)
       \<and> (\<forall>k. step_of s t k \<longrightarrow> steps (delete_thread t s) k = None)
       \<and> (\<forall>c. toolcall_of s t c \<longrightarrow> toolcalls (delete_thread t s) c = None)"
    by (simp add: delete_thread_fields without_def)
  have gone: "\<forall>m k c. \<not> message_of (delete_thread t s) t m \<and> \<not> step_of (delete_thread t s) t k
                   \<and> \<not> toolcall_of (delete_thread t s) t c"
    by (simp add: delete_thread_no_leftovers)
  have shared: "tools (delete_thread t s) = tools s
       \<and> categories (delete_thread t s) = categories s
       \<and> preferences (delete_thread t s) = preferences s"
    by (simp add: delete_thread_fields)
  have others: "(\<forall>m. \<not> message_of s t m \<longrightarrow> msgs (delete_thread t s) m = msgs s m)
       \<and> (\<forall>k. \<not> step_of s t k \<longrightarrow> steps (delete_thread t s) k = steps s k)
       \<and> (\<forall>c. \<not> toolcall_of s t c \<longrightarrow> toolcalls (delete_thread t s) c = toolcalls s c)
       \<and> (\<forall>t'. t' \<noteq> t \<longrightarrow> threads (delete_thread t s) t' = threads s t')"
    by (simp add: delete_thread_fields without_def)
  have chains: "\<forall>t'. t' \<noteq> t \<and> threads st t' \<noteq> None \<longrightarrow>
             get_thread (delete_thread t st) t' = get_thread st t'"
  proof (intro allI impI)
    fix t'
    assume a: "t' \<noteq> t \<and> threads st t' \<noteq> None"
    then obtain th' where th': "threads st t' = Some th'" by blast
    let ?g = "snd (repo_run dup xs)"
    have inv: "repo_inv st ?g"
      unfolding st_def by (rule repo_run_inv)
    then have inv': "repo_inv (delete_thread t st) (?g\<lparr>created := (created ?g)(t := [])\<rparr>)"
      by (rule delete_thread_inv)
    from a th' have "threads (delete_thread t st) t' = Some th'"
      by (simp add: delete_thread_fields)
    from get_thread_inv [OF inv' this] a
    have "get_thread (delete_thread t st) t' = Some (Inr (th', created ?g t'))"
      by simp
    also have "\<dots> = get_thread st t'"
      using get_thread_inv [OF inv th'] by simp
    finally show "get_thread (delete_thread t st) t' = get_thread st t'" .
  qed
  from local gone shared others chains show ?thesis
    by (intro conjI) (erule conjunct1 conjunct2 | assumption | (elim conjE, assumption))+
qed

theorem delete_thread_cascade_witness:
  fixes st0 :: store
  defines "st0 \<equiv> fst (repo_run same_text sample_ops)"
  shows "message_of st0 0 4 \<and> msgs (delete_thread 0 st0) 4 = None
       \<and> step_of st0 0 6 \<and> steps (delete_thread 0 st0) 6 = None
       \<and> toolcall_of st0 0 7 \<and> toolcalls (delete_thread 0 st0) 7 = None
       \<and> msgs (delete_thread 0 st0) 3 \<noteq> None
       \<and> map (\<lambda>t. (name t, usage_count t)) (tools (delete_thread 0 st0)) =
           [(''search_news'', 3), (''search_by_location'', 1)]
       \<and> get_thread st0 1 =
           Some (Inr (\<lparr>thread_title = Some ''b'', thread_created_at = 10,
                        thread_updated_at = 7, thread_last_message_at = Some 7\<rparr>, [3]))
       \<and> get_thread (delete_thread 0 st0) 1 = get_thread st0 1"
proof -
  note ev = st0_def repo_run_def sample_ops_def repo_step_def empty_store_def create_thread_def
      append_message_def append_reasoning_steps_def Let_def search_call_def geo_call_def
  have a: "message_of st0 0 4" by (simp add: message_of_def ev)
  have b: "step_of st0 0 6" by (simp add: step_of_def ev)
  have c: "toolcall_of st0 0 7" by (simp add: toolcall_of_def step_of_def ev)
  have d: "\<not> message_of st0 0 3" "msgs st0 3 \<noteq> None" by (simp_all add: message_of_def ev)
  have e: "map (\<lambda>t. (name t, usage_count t)) (tools st0) =
           [(''search_news'', 3), (''search_by_location'', 1)]"
    by (simp add: ev)
  have f: "(1::nat) \<noteq> 0 \<and> threads st0 1 \<noteq> None" by (simp add: ev)
  have th1: "threads st0 1 =
               Some \<lparr>thread_title = Some ''b'', thread_created_at = 10,
                      thread_updated_at = 7, thread_last_message_at = Some 7\<rparr>"
    by (simp add: ev)
  have cr1: "created (snd (repo_run same_text sample_ops)) 1 = [3]"
    by (simp add: ev)
  have g: "get_thread st0 1 =
           Some (Inr (\<lparr>thread_title = Some ''b'', thread_created_at = 10,
                        thread_updated_at = 7, thread_last_message_at = Some 7\<rparr>, [3]))"
    using get_thread_inv [OF repo_run_inv th1 [unfolded st0_def], folded st0_def]
    by (simp only: cr1)
  note dt = delete_thread_cascade [where t = 0 and s = st0 and dup = same_text
      and xs = sample_ops, folded st0_def]
  from dt have "\<forall>m. message_of st0 0 m \<longrightarrow> msgs (delete_thread 0 st0) m = None"
    by (elim conjE)
  with a have a': "msgs (delete_thread 0 st0) 4 = None" by blast
  from dt have "\<forall>k. step_of st0 0 k \<longrightarrow> steps (delete_thread 0 st0) k = None"
    by (elim conjE)
  with b have b': "steps (delete_thread 0 st0) 6 = None" by blast
  from dt have "\<forall>c. toolcall_of st0 0 c \<longrightarrow> toolcalls (delete_thread 0 st0) c = None"
    by (elim conjE)
  with c have c': "toolcalls (delete_thread 0 st0) 7 = None" by blast
  from dt have "\<forall>m. \<not> message_of st0 0 m \<longrightarrow> msgs (delete_thread 0 st0) m = msgs st0 m"
    by (elim conjE)
  with d have d': "msgs (delete_thread 0 st0) 3 \<noteq> None" by simp
  from dt have "tools (delete_thread 0 st0) = tools st0"
    by (elim conjE)
  with e have e': "map (\<lambda>t. (name t, usage_count t)) (tools (delete_thread 0 st0)) =
           [(''search_news'', 3), (''search_by_location'', 1)]" by simp
  from dt have "\<forall>t'. t' \<noteq> 0 \<and> threads st0 t' \<noteq> None \<longrightarrow>
             get_thread (delete_thread 0 st0) t' = get_thread st0 t'"
    by (elim conjE)
  with f have f': "get_thread (delete_thread 0 st0) 1 = get_thread st0 1" by blast
  from a a' b b' c c' d' e' g f' show ?thesis by (intro conjI)
qed

subsection \<open>Preferences\<close>













subsection \<open>Retries\<close>

lemma length_retry_loop: "length (retry_loop tool factor nm left i p) \<le> left"
  by (induction left arbitrary: i p) (auto simp: Let_def)

lemma map_pair_zip: "map (\<lambda>a. (f a, h a)) xs = zip (map f xs) (map h xs)"
  by (induction xs) simp_all

lemma retry_loop_stops:
  "a \<in> set (butlast (retry_loop tool factor nm left i p)) \<Longrightarrow> attempt_output a = []"
  by (induction left arbitrary: i p) (auto simp: Let_def split: if_splits)

text \<open>
  C3. A tool whose first call with the default parameter and second call with the
  parameter escalated once return nothing, and whose third call with the parameter
  escalated twice returns something, is called exactly three times: three attempts are
  recorded, with the default parameter, that parameter times the escalation factor and
  that times the factor again, the last with the non-empty result, after which the loop
  has ended. With a positive parameter and a factor above one the parameters grow
  strictly and the three records differ. No tool is ever called more than three
  times, and every recorded attempt but the last has an empty result.
\<close>

theorem retry_escalation:
  fixes tool :: "nat \<Rightarrow> nat \<Rightarrow> 'a list"
  assumes "tool 1 p = []" and "tool 2 (p * factor) = []"
      and "tool 3 (p * factor * factor) \<noteq> []"
  shows "length (execute_tool tool factor nm p) = 3
       \<and> map attempt_parameter (execute_tool tool factor nm p) =
           [p, p * factor, p * factor * factor]
       \<and> map attempt_output (execute_tool tool factor nm p) =
           [[], [], tool 3 (p * factor * factor)]
       \<and> attempt_output (last (execute_tool tool factor nm p)) \<noteq> []
       \<and> (0 < p \<and> 1 < factor \<longrightarrow>
            distinct (execute_tool tool factor nm p)
          \<and> p < p * factor \<and> p * factor < p * factor * factor)
       \<and> (\<forall>tool' :: nat \<Rightarrow> nat \<Rightarrow> 'a list. \<forall>p'.
            length (execute_tool tool' factor nm p') \<le> 3
          \<and> (\<forall>a \<in> set (butlast (execute_tool tool' factor nm p')). attempt_output a = []))"
proof -
  have run: "execute_tool tool factor nm p =
      [\<lparr>attempt_tool = nm, attempt_parameter = p, attempt_output = []\<rparr>,
       \<lparr>attempt_tool = nm, attempt_parameter = p * factor, attempt_output = []\<rparr>,
       \<lparr>attempt_tool = nm, attempt_parameter = p * factor * factor,
        attempt_output = tool 3 (p * factor * factor)\<rparr>]"
    using assms
    by (simp add: execute_tool_def max_attempts_def numeral_3_eq_3 Let_def eval_nat_numeral)
  have bound: "length (execute_tool tool' factor nm p') \<le> 3
          \<and> (\<forall>a \<in> set (butlast (execute_tool tool' factor nm p')). attempt_output a = [])"
    for tool' :: "nat \<Rightarrow> nat \<Rightarrow> 'a list" and p'
    using length_retry_loop [of tool' factor nm max_attempts 1 p'] retry_loop_stops
    by (auto simp: execute_tool_def max_attempts_def)
  have grow: "p < p * factor \<and> p * factor < p * factor * factor" if "0 < p" "1 < factor"
    using that by simp
  have "distinct (execute_tool tool factor nm p)" if "0 < p" "1 < factor"
    using grow [OF that] assms(3) unfolding run by auto
  with run assms(3) grow bound show ?thesis
    by (simp del: One_nat_def)
qed

theorem retry_escalation_witness:
  "slow_stub 1 10 = [] \<and> slow_stub 2 (10 * 2) = [] \<and> slow_stub 3 (10 * 2 * 2) \<noteq> []
 \<and> map (\<lambda>a. (attempt_parameter a, attempt_output a)) (execute_tool slow_stub 2 ''search_news'' 10) =
     [(10, []), (20, []), (40, [''a1'', ''a2'', ''a3''])]
 \<and> distinct (execute_tool slow_stub 2 ''search_news'' 10)"
proof -
  have h1: "slow_stub 1 10 = []" and h2: "slow_stub 2 (10 * 2) = []"
    and h3: "slow_stub 3 (10 * 2 * 2) \<noteq> []"
    by (simp_all add: slow_stub_def)
  note r = retry_escalation [OF h1 h2 h3, of "''search_news''"]
  from r have par: "map attempt_parameter (execute_tool slow_stub 2 ''search_news'' 10) =
           [10, 10 * 2, 10 * 2 * 2]"
    and out: "map attempt_output (execute_tool slow_stub 2 ''search_news'' 10) =
           [[], [], slow_stub 3 (10 * 2 * 2)]"
    and dis: "distinct (execute_tool slow_stub 2 ''search_news'' 10)"
    by simp_all
  have "map (\<lambda>a. (attempt_parameter a, attempt_output a)) (execute_tool slow_stub 2 ''search_news'' 10) =
          zip (map attempt_parameter (execute_tool slow_stub 2 ''search_news'' 10))
              (map attempt_output (execute_tool slow_stub 2 ''search_news'' 10))"
    by (rule map_pair_zip)
  also have "\<dots> = [(10, []), (20, []), (40, [''a1'', ''a2'', ''a3''])]"
    unfolding par out by (simp add: slow_stub_def)
  finally show ?thesis using h1 h2 h3 dis by (intro conjI)
qed

end
